theory Spec2Isabelle
  imports Main
begin

section \<open>Arbitrary-precision integers of the NTL library\<close>

text \<open>
  Both programs compute on NTL's \<^verbatim>\<open>ZZ\<close>, the unbounded integers, modelled as \<^typ>\<open>int\<close>.
  NTL's \<^verbatim>\<open>a / b\<close> is the floor of the quotient, which is \<open>div\<close> on \<^typ>\<open>int\<close> for a
  non-zero divisor; for \<^verbatim>\<open>b = 0\<close> NTL raises a division-by-zero error. Each \<open>div\<close>
  in the functions below stands under the guard of the source that makes its divisor
  non-zero. The divisions whose divisor the source does not guard are in the two drivers
  (the modular reduction of both, and \<^verbatim>\<open>N / q\<close> in wiener.cpp); they are modelled with an
  explicit error value.
\<close>

definition IsZero :: "int \<Rightarrow> bool" where
  "IsZero a = (a = 0)"

text \<open>\<^verbatim>\<open>divide(a, b)\<close>: whether \<open>b\<close> divides \<open>a\<close>.\<close>

definition divide_zz :: "int \<Rightarrow> int \<Rightarrow> bool" where
  "divide_zz a b = (b dvd a)"

text \<open>\<^verbatim>\<open>sign(a)\<close>: \<open>-1\<close>, \<open>0\<close> or \<open>1\<close>.\<close>

definition sign_zz :: "int \<Rightarrow> int" where
  "sign_zz a = (if a < 0 then - 1 else if a = 0 then 0 else 1)"

text \<open>
  \<^verbatim>\<open>SqrRoot(a)\<close>: the floor of the square root of \<open>a \<ge> 0\<close>, computed here two bits at a
  time. Both programs call it on non-negative arguments only.
\<close>

function SqrRoot_nat :: "nat \<Rightarrow> nat" where
  "SqrRoot_nat n =
     (if n < 2 then n
      else if (2 * SqrRoot_nat (n div 4) + 1) * (2 * SqrRoot_nat (n div 4) + 1) \<le> n
           then 2 * SqrRoot_nat (n div 4) + 1
           else 2 * SqrRoot_nat (n div 4))"
  by pat_completeness auto
termination
  by (relation "measure (\<lambda>n. n)") auto

declare SqrRoot_nat.simps [simp del]

definition SqrRoot :: "int \<Rightarrow> int" where
  "SqrRoot a = int (SqrRoot_nat (nat a))"

datatype ntl_error = DivisionByZero

text \<open>
  \<^verbatim>\<open>MulMod(a, b, n)\<close> is documented for \<open>n > 1\<close> and operands below \<open>n\<close>. It multiplies
  and reduces with NTL's remainder (the floor remainder, \<open>mod\<close> on \<^typ>\<open>int\<close>), which is
  what the drivers get for operands beyond \<open>n\<close> too; for the modulus \<open>0\<close> the remainder
  raises the division-by-zero error.
\<close>

definition MulMod :: "int \<Rightarrow> int \<Rightarrow> int \<Rightarrow> ntl_error + int" where
  "MulMod a b n = (if n = 0 then Inl DivisionByZero else Inr ((a * b) mod n))"


section \<open>wiener\_attack.cpp\<close>

subsection \<open>computeContinuedFraction\<close>

text \<open>
  The loop of \<^verbatim>\<open>computeContinuedFraction\<close> on its three variables \<open>num\<close>, \<open>den\<close> and
  the vector \<open>cf\<close> that \<^verbatim>\<open>push_back\<close> extends at its end.
\<close>

function cf_loop :: "int \<Rightarrow> int \<Rightarrow> int list \<Rightarrow> int list" where
  "cf_loop num den cf =
     (if IsZero den then cf
      else cf_loop den (num - (num div den) * den) (cf @ [num div den]))"
  by pat_completeness auto
termination
  by (relation "measure (\<lambda>(num, den, cf). nat \<bar>den\<bar>)")
     (auto simp: IsZero_def minus_div_mult_eq_mod abs_mod_less)

declare cf_loop.simps [simp del]

definition computeContinuedFraction :: "int \<Rightarrow> int \<Rightarrow> int list" where
  "computeContinuedFraction e N = cf_loop e N []"

subsection \<open>buildConvergents\<close>

text \<open>
  The loop of \<^verbatim>\<open>buildConvergents\<close> over the index \<open>i\<close>; \<open>P\<close> and \<open>Q\<close> are cleared
  before it and grow by one entry per iteration, so that the reads \<open>P[i - 1]\<close> and
  \<open>P[i - 2]\<close> of the third branch are below their length \<open>i\<close>.
\<close>

function bc_loop :: "int list \<Rightarrow> nat \<Rightarrow> int list \<Rightarrow> int list \<Rightarrow> int list \<times> int list" where
  "bc_loop cf i P Q =
     (if i < length cf then
        (if i = 0 then bc_loop cf (i + 1) (P @ [cf ! 0]) (Q @ [1])
         else if i = 1 then bc_loop cf (i + 1) (P @ [cf ! 1 * cf ! 0 + 1]) (Q @ [cf ! 1])
         else bc_loop cf (i + 1) (P @ [cf ! i * P ! (i - 1) + P ! (i - 2)])
                                 (Q @ [cf ! i * Q ! (i - 1) + Q ! (i - 2)]))
      else (P, Q))"
  by pat_completeness auto
termination
  by (relation "measure (\<lambda>(cf, i, P, Q). length cf - i)") auto

declare bc_loop.simps [simp del]

definition buildConvergents :: "int list \<Rightarrow> int list \<times> int list" where
  "buildConvergents cf = bc_loop cf 0 [] []"

subsection \<open>isPerfectSquare and tryRecoverFromConvergent\<close>

text \<open>
  \<^verbatim>\<open>isPerfectSquare(n, root)\<close> returns its verdict and leaves the square root in the
  reference parameter \<open>root\<close>, which a negative \<open>n\<close> leaves as it was.
\<close>

definition isPerfectSquare :: "int \<Rightarrow> int \<Rightarrow> bool \<times> int" where
  "isPerfectSquare n root =
     (if n < 0 then (False, root)
      else (SqrRoot n * SqrRoot n = n, SqrRoot n))"

text \<open>
  The loop over the two root numerators \<^verbatim>\<open>{r1, r2}\<close>: each \<^verbatim>\<open>continue\<close> moves on to
  the next numerator, the \<^verbatim>\<open>return\<close> leaves the loop.
\<close>

fun try_roots :: "int list \<Rightarrow> int \<Rightarrow> int \<Rightarrow> int \<Rightarrow> (int \<times> int) option" where
  "try_roots [] twoA N d = None"
| "try_roots (rootCand # rest) twoA N d =
     (if \<not> divide_zz rootCand twoA then try_roots rest twoA N d
      else if rootCand div twoA \<le> 0 then try_roots rest twoA N d
      else if \<not> divide_zz N (rootCand div twoA) then try_roots rest twoA N d
      else Some (rootCand div twoA, d))"

definition tryRecoverFromConvergent ::
  "int \<Rightarrow> int \<Rightarrow> int \<Rightarrow> int \<Rightarrow> (int \<times> int) option" where
  "tryRecoverFromConvergent k d e N =
     (if IsZero k then None
      else
        let numer = e * d - 1 in
        if \<not> divide_zz numer k then None
        else
          let phiN = numer div k;
              a = 1;
              b = - ((N - phiN) + 1);
              c = N;
              delta = b * b - 4 * a * c
          in
          if delta < 0 then None
          else
            (case isPerfectSquare delta 0 of
               (False, sqrtDelta) \<Rightarrow> None
             | (True, sqrtDelta) \<Rightarrow>
                 let twoA = 2 * a;
                     r1 = - b + sqrtDelta;
                     r2 = - b - sqrtDelta
                 in try_roots [r1, r2] twoA N d))"

text \<open>
  The values that \<^verbatim>\<open>tryRecoverFromConvergent\<close> gives to its variables \<open>phiN\<close>, \<open>b\<close> and
  \<open>delta\<close> (with \<open>a = 1\<close> and \<open>c = N\<close>), named for the statements below; \<^verbatim>\<open>attack\<close> of
  wiener.cpp computes the same three values.
\<close>

definition phi_candidate :: "int \<Rightarrow> int \<Rightarrow> int \<Rightarrow> int" where
  "phi_candidate k d e = (e * d - 1) div k"

definition coefficient_b :: "int \<Rightarrow> int \<Rightarrow> int" where
  "coefficient_b N phiN = - ((N - phiN) + 1)"

definition discriminant :: "int \<Rightarrow> int \<Rightarrow> int" where
  "discriminant N phiN = coefficient_b N phiN * coefficient_b N phiN - 4 * 1 * N"

subsection \<open>wienerAttack and the driver\<close>

function wa_loop ::
  "int list \<Rightarrow> int list \<Rightarrow> int \<Rightarrow> int \<Rightarrow> nat \<Rightarrow> (int \<times> int) option" where
  "wa_loop P Q e N i =
     (if i < length P then
        (case tryRecoverFromConvergent (P ! i) (Q ! i) e N of
           Some res \<Rightarrow> Some res
         | None \<Rightarrow> wa_loop P Q e N (i + 1))
      else None)"
  by pat_completeness auto
termination
  by (relation "measure (\<lambda>(P, Q, e, N, i). length P - i)") auto

declare wa_loop.simps [simp del]

definition wienerAttack :: "int \<Rightarrow> int \<Rightarrow> (int \<times> int) option" where
  "wienerAttack e N =
     (let cf = computeContinuedFraction e N in
      if cf = [] then None
      else (case buildConvergents cf of (P, Q) \<Rightarrow> wa_loop P Q e N 0))"

text \<open>
  How a run of a driver ends: it returns an exit code, an \<^verbatim>\<open>assert\<close> fails, a vector is
  read beyond its end, or NTL raises an error.
\<close>

datatype run_outcome =
    Returned nat
  | AssertionFailed
  | OutOfRange
  | Raised ntl_error

text \<open>
  \<^verbatim>\<open>main\<close> of wiener\_attack.cpp from the parsed arguments \<open>e\<close> and \<open>N\<close> on (the timing
  and the printing left out).
\<close>

definition main_wiener_attack :: "int \<Rightarrow> int \<Rightarrow> run_outcome" where
  "main_wiener_attack e N =
     (if e \<le> 0 \<or> N \<le> 0 then Returned 2
      else
        (case wienerAttack e N of
           None \<Rightarrow> Returned 3
         | Some (q, d) \<Rightarrow>
             if q = 0 \<or> d = 0 then Returned 3
             else if \<not> divide_zz N q then Returned 4
             else
               let p = N div q;
                   phiN = (p - 1) * (q - 1)
               in
               (case MulMod e d phiN of
                  Inl err \<Rightarrow> Raised err
                | Inr check \<Rightarrow> if check \<noteq> 1 then Returned 5 else Returned 0)))"


section \<open>wiener.cpp\<close>

subsection \<open>oblicz\_wartosc\_ulamka\_lancuchowego\<close>

function oblicz_loop :: "int \<Rightarrow> int \<Rightarrow> int list \<Rightarrow> int list" where
  "oblicz_loop licznik mianownik wartosc =
     (if IsZero mianownik then wartosc
      else oblicz_loop mianownik (licznik - (mianownik * (licznik div mianownik)))
             (wartosc @ [licznik div mianownik]))"
  by pat_completeness auto
termination
  by (relation "measure (\<lambda>(licznik, mianownik, wartosc). nat \<bar>mianownik\<bar>)")
     (auto simp: IsZero_def minus_mult_div_eq_mod abs_mod_less)

declare oblicz_loop.simps [simp del]

definition oblicz_wartosc_ulamka_lancuchowego :: "int \<Rightarrow> int \<Rightarrow> int list" where
  "oblicz_wartosc_ulamka_lancuchowego e N = oblicz_loop e N []"

subsection \<open>attack\<close>

text \<open>
  The test that one iteration of \<^verbatim>\<open>attack\<close> runs on \<open>k = P[i]\<close> and \<open>d = Q[i]\<close>. The
  variables of \<^verbatim>\<open>attack\<close> are declared before its loop; every one of them is assigned in
  an iteration before it is read there, except \<open>p1\<close>: the branch for \<open>delta = 0\<close> divides
  the \<open>p1\<close> left by the iterations before (initially \<open>0\<close>). So \<open>p1\<close> is passed in and
  returned. The first component is the vector \<open>wynik\<close> when the iteration returns.
\<close>

definition attack_check ::
  "int \<Rightarrow> int \<Rightarrow> int \<Rightarrow> int \<Rightarrow> int \<Rightarrow> int list option \<times> int" where
  "attack_check k d e N p1 =
     (if \<not> IsZero k then
        let phiN = (e * d) - 1 in
        if divide_zz phiN k then
          let phiN' = phiN div k;
              a = 1;
              b = - ((N - phiN') + 1);
              c = N;
              delta = b ^ 2 - 4 * (a * c)
          in
          if sign_zz delta > 0 then
            let p1' = - b + SqrRoot delta;
                p2 = - b - SqrRoot delta
            in
            if divide_zz p1' (2 * a) then
              let p1'' = p1' div (2 * a) in
              if sign_zz p1'' > 0 \<and> divide_zz N p1'' then (Some [N div p1'', d], p1'')
              else (None, p1'')
            else if divide_zz p2 (2 * a) then
              let p2' = p2 div (2 * a) in
              if sign_zz p2' > 0 \<and> divide_zz N p2' then (Some [N div p2', d], p1')
              else (None, p1')
            else (None, p1')
          else if sign_zz delta = 0 then
            if divide_zz (- b) (2 * a) then
              let p1' = p1 div (2 * a) in
              if sign_zz p1' > 0 \<and> divide_zz N p1' then (Some [N div p1', d], p1')
              else (None, p1')
            else (None, p1)
          else (None, p1)
        else (None, p1)
      else (None, p1))"

text \<open>
  The first part of an iteration of the loop of \<^verbatim>\<open>attack\<close>: the \<open>i\<close>-th convergent
  is appended to \<open>P\<close> and \<open>Q\<close>.
\<close>

definition attack_push :: "int list \<Rightarrow> nat \<Rightarrow> int list \<times> int list \<Rightarrow> int list \<times> int list" where
  "attack_push wartosc_ulamka i PQ =
     (case PQ of (P, Q) \<Rightarrow>
        if i = 0 then (P @ [wartosc_ulamka ! i], Q @ [1])
        else if i = 1 then
          (P @ [(wartosc_ulamka ! i * wartosc_ulamka ! (i - 1)) + 1], Q @ [wartosc_ulamka ! i])
        else
          (P @ [(wartosc_ulamka ! i * P ! (i - 1)) + P ! (i - 2)],
           Q @ [(wartosc_ulamka ! i * Q ! (i - 1)) + Q ! (i - 2)]))"

text \<open>
  The loop of \<^verbatim>\<open>attack\<close>: iteration \<open>i\<close> appends the \<open>i\<close>-th convergent and tests it;
  the test returns from \<^verbatim>\<open>attack\<close> or the loop goes on with the \<open>p1\<close> the test left.
  \<open>None\<close> is the loop running to its end.
\<close>

function attack_loop ::
  "int \<Rightarrow> int \<Rightarrow> int list \<Rightarrow> nat \<Rightarrow> int list \<times> int list \<Rightarrow> int \<Rightarrow> int list option" where
  "attack_loop e N wartosc_ulamka i PQ p1 =
     (if i < length wartosc_ulamka then
        (case attack_check (fst (attack_push wartosc_ulamka i PQ) ! i)
                (snd (attack_push wartosc_ulamka i PQ) ! i) e N p1 of
           (Some wynik, p1') \<Rightarrow> Some wynik
         | (None, p1') \<Rightarrow>
             attack_loop e N wartosc_ulamka (i + 1) (attack_push wartosc_ulamka i PQ) p1')
      else None)"
  by pat_completeness auto
termination
  by (relation "measure (\<lambda>(e, N, w, i, PQ, p1). length w - i)") auto

declare attack_loop.simps [simp del]

text \<open>
  \<^verbatim>\<open>attack\<close>: the vector \<open>wynik\<close> is returned from inside the loop with the two entries
  \<open>q\<close> and \<open>d\<close>, or after the loop with the single entry \<open>0\<close>.
\<close>

definition attack :: "int \<Rightarrow> int \<Rightarrow> int list" where
  "attack e N =
     (case attack_loop e N (oblicz_wartosc_ulamka_lancuchowego e N) 0 ([], []) 0 of
        Some wynik \<Rightarrow> wynik
      | None \<Rightarrow> [] @ [0])"

text \<open>
  The value of \<open>p1\<close> at the start of iteration \<open>j\<close> of the loop of \<^verbatim>\<open>attack\<close>, when no
  iteration before \<open>j\<close> has returned: \<open>0\<close> at the start, then what each test leaves.
\<close>

fun attack_p1 :: "int \<Rightarrow> int \<Rightarrow> int list \<Rightarrow> int list \<Rightarrow> nat \<Rightarrow> int" where
  "attack_p1 e N P Q 0 = 0"
| "attack_p1 e N P Q (Suc j) = snd (attack_check (P ! j) (Q ! j) e N (attack_p1 e N P Q j))"

subsection \<open>The driver\<close>

text \<open>
  \<^verbatim>\<open>wynik[i]\<close> on a \<^verbatim>\<open>std::vector\<close>: defined below the size only.
\<close>

definition vec_at :: "int list \<Rightarrow> nat \<Rightarrow> int option" where
  "vec_at v i = (if i < length v then Some (v ! i) else None)"

definition main_wiener :: "int \<Rightarrow> int \<Rightarrow> run_outcome" where
  "main_wiener e N =
     (let wynik = attack e N in
      case vec_at wynik 0 of
        None \<Rightarrow> OutOfRange
      | Some q \<Rightarrow>
          (case vec_at wynik 1 of
             None \<Rightarrow> OutOfRange
           | Some d \<Rightarrow>
               if q = 0 then Raised DivisionByZero
               else
                 let p = N div q;
                     phiN = (p - 1) * (q - 1)
                 in
                 (case MulMod e d phiN of
                    Inl err \<Rightarrow> Raised err
                  | Inr v \<Rightarrow> if v = 1 then Returned 0 else AssertionFailed)))"


section \<open>The specification's wording of the Euclidean algorithm\<close>

text \<open>
  The Euclidean algorithm as the specification words it: the pair \<open>(num, den)\<close> starts at
  \<open>(e, N)\<close> and each step replaces it by \<open>(den, num - (num div den) * den)\<close>.
\<close>

definition euclid_step :: "int \<times> int \<Rightarrow> int \<times> int" where
  "euclid_step s = (snd s, fst s - (fst s div snd s) * snd s)"

fun euclid_state :: "int \<Rightarrow> int \<Rightarrow> nat \<Rightarrow> int \<times> int" where
  "euclid_state e N 0 = (e, N)"
| "euclid_state e N (Suc j) = euclid_step (euclid_state e N j)"


section \<open>Properties of the continued-fraction expansion\<close>

lemma cf_loop_acc: "cf_loop num den cf = cf @ cf_loop num den []"
proof (induction "nat \<bar>den\<bar>" arbitrary: num den cf rule: less_induct)
  case less
  show ?case
  proof (cases "den = 0")
    case True
    then show ?thesis by (simp add: cf_loop.simps IsZero_def)
  next
    case False
    let ?r = "num - (num div den) * den"
    have smaller: "nat \<bar>?r\<bar> < nat \<bar>den\<bar>"
      using False by (simp add: minus_div_mult_eq_mod abs_mod_less)
    have "cf_loop num den cf = cf_loop den ?r (cf @ [num div den])"
      using False by (simp add: cf_loop.simps IsZero_def)
    also have "\<dots> = (cf @ [num div den]) @ cf_loop den ?r []"
      by (rule less [OF smaller])
    also have "\<dots> = cf @ ([num div den] @ cf_loop den ?r [])"
      by simp
    also have "[num div den] @ cf_loop den ?r [] = cf_loop den ?r [num div den]"
      by (rule less [OF smaller, symmetric])
    also have "cf_loop den ?r [num div den] = cf_loop num den []"
      using False by (simp add: cf_loop.simps [of num den "[]"] IsZero_def)
    finally show ?thesis .
  qed
qed

lemma computeContinuedFraction_zero: "computeContinuedFraction e 0 = []"
  by (simp add: computeContinuedFraction_def cf_loop.simps IsZero_def)

lemma computeContinuedFraction_step:
  "N \<noteq> 0 \<Longrightarrow>
   computeContinuedFraction e N = (e div N) # computeContinuedFraction N (e - (e div N) * N)"
  unfolding computeContinuedFraction_def
  by (subst cf_loop.simps, subst cf_loop_acc) (simp add: IsZero_def)

lemma oblicz_loop_eq: "oblicz_loop a b w = cf_loop a b w"
proof (induction "nat \<bar>b\<bar>" arbitrary: a b w rule: less_induct)
  case less
  show ?case
  proof (cases "b = 0")
    case True
    then show ?thesis by (simp add: cf_loop.simps oblicz_loop.simps IsZero_def)
  next
    case False
    have smaller: "nat \<bar>a - (a div b) * b\<bar> < nat \<bar>b\<bar>"
      using False by (simp add: minus_div_mult_eq_mod abs_mod_less)
    have "oblicz_loop a b w = oblicz_loop b (a - (a div b) * b) (w @ [a div b])"
      using False by (subst oblicz_loop.simps) (simp add: IsZero_def mult.commute)
    also have "\<dots> = cf_loop b (a - (a div b) * b) (w @ [a div b])"
      by (rule less [OF smaller])
    also have "\<dots> = cf_loop a b w"
      using False by (simp add: cf_loop.simps [of a b w] IsZero_def)
    finally show ?thesis .
  qed
qed

lemma oblicz_eq_computeContinuedFraction:
  "oblicz_wartosc_ulamka_lancuchowego e N = computeContinuedFraction e N"
  by (simp add: oblicz_wartosc_ulamka_lancuchowego_def computeContinuedFraction_def oblicz_loop_eq)

lemma euclid_state_shift:
  "N \<noteq> 0 \<Longrightarrow> euclid_state e N (Suc j) = euclid_state N (e - (e div N) * N) j"
  by (induction j) (simp_all add: euclid_step_def)

lemma cf_follows_euclid:
  "snd (euclid_state e N (length (computeContinuedFraction e N))) = 0 \<and>
   (\<forall>j < length (computeContinuedFraction e N).
      snd (euclid_state e N j) \<noteq> 0 \<and>
      computeContinuedFraction e N ! j = fst (euclid_state e N j) div snd (euclid_state e N j))"
proof (induction "nat \<bar>N\<bar>" arbitrary: e N rule: less_induct)
  case less
  show ?case
  proof (cases "N = 0")
    case True
    then show ?thesis by (simp add: computeContinuedFraction_zero)
  next
    case False
    let ?r = "e - (e div N) * N"
    have smaller: "nat \<bar>?r\<bar> < nat \<bar>N\<bar>"
      using False by (simp add: minus_div_mult_eq_mod abs_mod_less)
    note IH = less [OF smaller]
    have unfold: "computeContinuedFraction e N = (e div N) # computeContinuedFraction N ?r"
      using False by (rule computeContinuedFraction_step)
    have shift: "\<And>j. euclid_state e N (Suc j) = euclid_state N ?r j"
      using False by (rule euclid_state_shift)
    have stop: "snd (euclid_state e N (length (computeContinuedFraction e N))) = 0"
      using IH by (simp add: unfold shift del: euclid_state.simps)
    have terms: "snd (euclid_state e N j) \<noteq> 0 \<and>
        computeContinuedFraction e N ! j = fst (euclid_state e N j) div snd (euclid_state e N j)"
      if "j < length (computeContinuedFraction e N)" for j
    proof (cases j)
      case 0
      then show ?thesis using False by (simp add: unfold)
    next
      case (Suc j')
      then have "j' < length (computeContinuedFraction N ?r)"
        using that by (simp add: unfold)
      then show ?thesis
        using IH Suc by (simp add: unfold shift del: euclid_state.simps)
    qed
    show ?thesis using stop terms by blast
  qed
qed

lemma euclid_state_nonneg:
  "0 \<le> e \<Longrightarrow> 0 \<le> N \<Longrightarrow> 0 \<le> fst (euclid_state e N j) \<and> 0 \<le> snd (euclid_state e N j)"
proof (induction j)
  case 0
  then show ?case by simp
next
  case (Suc j)
  then have "0 \<le> fst (euclid_state e N j)" and "0 \<le> snd (euclid_state e N j)"
    by simp_all
  then show ?case
    by (auto simp add: euclid_step_def minus_div_mult_eq_mod mod_int_pos_iff)
qed

lemma euclid_state_decreases:
  assumes "0 \<le> e" and "0 \<le> N" and "snd (euclid_state e N j) \<noteq> 0"
  shows "snd (euclid_state e N (Suc j)) < snd (euclid_state e N j)"
proof -
  have "0 < snd (euclid_state e N j)"
    using euclid_state_nonneg [OF assms(1,2), of j] assms(3) by simp
  then show ?thesis
    by (simp add: euclid_step_def minus_div_mult_eq_mod)
qed

text \<open>
  Claim C7. For non-negative \<open>e\<close> and \<open>N\<close> the expansion returns the quotients of the
  Euclidean algorithm on \<open>(e, N)\<close>: with \<open>m\<close> the number of terms returned, the
  denominator of the Euclidean state is non-zero before each of the first \<open>m\<close> steps and
  zero after them (the loop runs exactly \<open>m\<close> times and stops), the \<open>j\<close>-th term is the
  quotient \<open>num div den\<close> of the \<open>j\<close>-th state, and each step leaves a denominator that
  is non-negative and strictly below the one before. \<open>cf_loop\<close> is a total function, its
  termination proved from \<open>\<bar>den\<bar>\<close> decreasing. The expansion of wiener.cpp returns the
  same sequence.
\<close>

theorem continued_fraction_is_euclid:
  assumes "0 \<le> e" and "0 \<le> N"
  shows "snd (euclid_state e N (length (computeContinuedFraction e N))) = 0 \<and>
   (\<forall>j < length (computeContinuedFraction e N).
      snd (euclid_state e N j) \<noteq> 0 \<and>
      computeContinuedFraction e N ! j = fst (euclid_state e N j) div snd (euclid_state e N j) \<and>
      0 \<le> snd (euclid_state e N (Suc j)) \<and>
      snd (euclid_state e N (Suc j)) < snd (euclid_state e N j)) \<and>
   oblicz_wartosc_ulamka_lancuchowego e N = computeContinuedFraction e N"
  using cf_follows_euclid [of e N] euclid_state_nonneg [OF assms]
    euclid_state_decreases [OF assms] oblicz_eq_computeContinuedFraction [of e N]
  by blast


theorem continued_fraction_is_euclid_witness:
  "(0::int) \<le> 7 \<and> (0::int) \<le> 5 \<and>
   computeContinuedFraction 7 5 = [1, 2, 2] \<and>
   snd (euclid_state 7 5 3) = 0 \<and>
   snd (euclid_state 7 5 1) \<noteq> 0 \<and>
   [1, 2, 2] ! 1 = fst (euclid_state 7 5 1) div snd (euclid_state 7 5 1) \<and>
   0 \<le> snd (euclid_state 7 5 (Suc 1)) \<and>
   snd (euclid_state 7 5 (Suc 1)) < snd (euclid_state 7 5 1) \<and>
   oblicz_wartosc_ulamka_lancuchowego 7 5 = [1, 2, 2]"
proof -
  have terms: "computeContinuedFraction 7 5 = [1, 2, 2]"
    by (simp add: computeContinuedFraction_def cf_loop.simps IsZero_def)
  have e: "(0::int) \<le> 7" and N: "(0::int) \<le> 5"
    by simp_all
  have len: "length [1::int, 2, 2] = 3"
    by simp
  note euclid = continued_fraction_is_euclid [OF e N, unfolded terms len]
  note stop = euclid [THEN conjunct1]
  note second = euclid [THEN conjunct2, THEN conjunct1, rule_format, of 1]
  note same = euclid [THEN conjunct2, THEN conjunct2]
  have "(1::nat) < 3"
    by simp
  then show ?thesis
    using terms stop second same e N by blast
qed


section \<open>The empty expansion\<close>

text \<open>
  Claim C9. For every integer \<open>e\<close> the expansion with \<open>N = 0\<close> is the empty sequence, and
  \<^verbatim>\<open>wienerAttack\<close> answers an empty sequence with its no-solution result \<open>None\<close>: nothing
  is read from the empty \<open>P\<close> and \<open>Q\<close>. The driver of wiener\_attack.cpp turns \<open>N = 0\<close> away
  with exit code 2 before the attack.
\<close>

theorem zero_modulus_fails:
  "computeContinuedFraction e 0 = [] \<and> wienerAttack e 0 = None \<and>
   (computeContinuedFraction e N = [] \<longrightarrow> wienerAttack e N = None) \<and>
   main_wiener_attack e 0 = Returned 2"
  by (simp add: computeContinuedFraction_zero wienerAttack_def main_wiener_attack_def)

theorem zero_modulus_fails_witness:
  "computeContinuedFraction 17993 0 = [] \<and> wienerAttack 17993 0 = None \<and>
   main_wiener_attack 17993 0 = Returned 2"
proof -
  note zero = zero_modulus_fails [of 17993 0]
  have empty: "computeContinuedFraction 17993 0 = []"
    by (rule zero [THEN conjunct1])
  have failed: "wienerAttack 17993 0 = None"
    by (rule zero [THEN conjunct2, THEN conjunct2, THEN conjunct1, rule_format, OF empty])
  show ?thesis
    using empty failed zero [THEN conjunct2, THEN conjunct2, THEN conjunct2] by (intro conjI)
qed


section \<open>The convergents\<close>

lemma bc_loop_inv:
  "length P = i \<Longrightarrow> length Q = i \<Longrightarrow> i \<le> length cf \<Longrightarrow> bc_loop cf i P Q = (P', Q') \<Longrightarrow>
   length P' = length cf \<and> length Q' = length cf \<and>
   (\<forall>j<i. P' ! j = P ! j \<and> Q' ! j = Q ! j) \<and>
   (\<forall>j. i \<le> j \<and> j < length cf \<longrightarrow>
      (if j = 0 then P' ! 0 = cf ! 0 \<and> Q' ! 0 = 1
       else if j = 1 then P' ! 1 = cf ! 1 * cf ! 0 + 1 \<and> Q' ! 1 = cf ! 1
       else P' ! j = cf ! j * P' ! (j - 1) + P' ! (j - 2) \<and>
            Q' ! j = cf ! j * Q' ! (j - 1) + Q' ! (j - 2)))"
proof (induction cf i P Q rule: bc_loop.induct)
  case (1 cf i P Q)
  show ?case
  proof (cases "i < length cf")
    case False
    then have "i = length cf" using "1.prems" by simp
    moreover have "bc_loop cf i P Q = (P, Q)"
      using False by (simp add: bc_loop.simps)
    ultimately show ?thesis using "1.prems" by simp
  next
    case True
    define x where "x = (if i = 0 then cf ! 0 else if i = 1 then cf ! 1 * cf ! 0 + 1
       else cf ! i * P ! (i - 1) + P ! (i - 2))"
    define y where "y = (if i = 0 then 1 else if i = 1 then cf ! 1
       else cf ! i * Q ! (i - 1) + Q ! (i - 2))"
    have step: "bc_loop cf i P Q = bc_loop cf (i + 1) (P @ [x]) (Q @ [y])"
      using True by (subst bc_loop.simps) (simp add: x_def y_def)
    have next_result: "bc_loop cf (i + 1) (P @ [x]) (Q @ [y]) = (P', Q')"
      using step "1.prems" by simp
    have lens: "length (P @ [x]) = i + 1" "length (Q @ [y]) = i + 1" "i + 1 \<le> length cf"
      using "1.prems" True by simp_all
    have IH: "length P' = length cf \<and> length Q' = length cf \<and>
       (\<forall>j<i + 1. P' ! j = (P @ [x]) ! j \<and> Q' ! j = (Q @ [y]) ! j) \<and>
       (\<forall>j. i + 1 \<le> j \<and> j < length cf \<longrightarrow>
          (if j = 0 then P' ! 0 = cf ! 0 \<and> Q' ! 0 = 1
           else if j = 1 then P' ! 1 = cf ! 1 * cf ! 0 + 1 \<and> Q' ! 1 = cf ! 1
           else P' ! j = cf ! j * P' ! (j - 1) + P' ! (j - 2) \<and>
                Q' ! j = cf ! j * Q' ! (j - 1) + Q' ! (j - 2)))"
    proof (cases "i = 0")
      case True
      have xy: "x = cf ! 0" "y = 1"
        using True by (simp_all add: x_def y_def)
      show ?thesis
        unfolding xy
        by (rule "1.IH"(1) [OF \<open>i < length cf\<close> True lens [unfolded xy] next_result [unfolded xy]])
    next
      case False
      note i0 = False
      show ?thesis
      proof (cases "i = 1")
        case True
        have xy: "x = cf ! 1 * cf ! 0 + 1" "y = cf ! 1"
          using True by (simp_all add: x_def y_def)
        show ?thesis
          unfolding xy
          by (rule "1.IH"(2) [OF \<open>i < length cf\<close> i0 True lens [unfolded xy]
                next_result [unfolded xy]])
      next
        case False
        have xy: "x = cf ! i * P ! (i - 1) + P ! (i - 2)" "y = cf ! i * Q ! (i - 1) + Q ! (i - 2)"
          using i0 False by (simp_all add: x_def y_def)
        show ?thesis
          unfolding xy
          by (rule "1.IH"(3) [OF \<open>i < length cf\<close> i0 False lens [unfolded xy]
                next_result [unfolded xy]])
      qed
    qed
    have old: "P' ! j = P ! j \<and> Q' ! j = Q ! j" if "j < i" for j
      using IH that "1.prems" by (simp add: nth_append)
    have here: "P' ! i = x \<and> Q' ! i = y"
      using IH "1.prems" by (simp add: nth_append)
    have at_i: "(if i = 0 then P' ! 0 = cf ! 0 \<and> Q' ! 0 = 1
       else if i = 1 then P' ! 1 = cf ! 1 * cf ! 0 + 1 \<and> Q' ! 1 = cf ! 1
       else P' ! i = cf ! i * P' ! (i - 1) + P' ! (i - 2) \<and>
            Q' ! i = cf ! i * Q' ! (i - 1) + Q' ! (i - 2))"
      using here old [of "i - 1"] old [of "i - 2"] by (auto simp: x_def y_def)
    have later: "(if j = 0 then P' ! 0 = cf ! 0 \<and> Q' ! 0 = 1
       else if j = 1 then P' ! 1 = cf ! 1 * cf ! 0 + 1 \<and> Q' ! 1 = cf ! 1
       else P' ! j = cf ! j * P' ! (j - 1) + P' ! (j - 2) \<and>
            Q' ! j = cf ! j * Q' ! (j - 1) + Q' ! (j - 2))"
      if "i \<le> j" "j < length cf" for j
    proof (cases "j = i")
      case True
      show ?thesis unfolding True by (rule at_i)
    next
      case False
      then have "i + 1 \<le> j" using that by simp
      then show ?thesis using IH that by blast
    qed
    show ?thesis using IH old later by blast
  qed
qed


lemma buildConvergents_index:
  assumes "buildConvergents cf = (P, Q)"
  shows "length P = length cf \<and> length Q = length cf \<and>
   (\<forall>j. j < length cf \<longrightarrow>
      (if j = 0 then P ! 0 = cf ! 0 \<and> Q ! 0 = 1
       else if j = 1 then P ! 1 = cf ! 1 * cf ! 0 + 1 \<and> Q ! 1 = cf ! 1
       else P ! j = cf ! j * P ! (j - 1) + P ! (j - 2) \<and>
            Q ! j = cf ! j * Q ! (j - 1) + Q ! (j - 2)))"
proof -
  have run: "bc_loop cf 0 [] [] = (P, Q)"
    using assms by (simp only: buildConvergents_def)
  have start: "length ([]::int list) = 0" "0 \<le> length cf"
    by simp_all
  note inv = bc_loop_inv [OF start(1) start(1) start(2) run]
  have "j < length cf \<longrightarrow>
      (if j = 0 then P ! 0 = cf ! 0 \<and> Q ! 0 = 1
       else if j = 1 then P ! 1 = cf ! 1 * cf ! 0 + 1 \<and> Q ! 1 = cf ! 1
       else P ! j = cf ! j * P ! (j - 1) + P ! (j - 2) \<and>
            Q ! j = cf ! j * Q ! (j - 1) + Q ! (j - 2))" for j
    using inv [THEN conjunct2, THEN conjunct2, THEN conjunct2, rule_format, of j]
    by (simp only: le0 simp_thms) (rule impI)
  then show ?thesis
    using inv [THEN conjunct1] inv [THEN conjunct2, THEN conjunct1] by blast
qed

lemma attack_push_take:
  assumes "buildConvergents cf = (P, Q)" and "i < length cf"
  shows "attack_push cf i (take i P, take i Q) = (take (Suc i) P, take (Suc i) Q)"
proof -
  note idx = buildConvergents_index [OF assms(1)]
  have lenP: "i < length P" and lenQ: "i < length Q"
    using idx assms(2) by simp_all
  have at_i: "(if i = 0 then P ! 0 = cf ! 0 \<and> Q ! 0 = 1
       else if i = 1 then P ! 1 = cf ! 1 * cf ! 0 + 1 \<and> Q ! 1 = cf ! 1
       else P ! i = cf ! i * P ! (i - 1) + P ! (i - 2) \<and>
            Q ! i = cf ! i * Q ! (i - 1) + Q ! (i - 2))"
    using idx assms(2) by blast
  have P_take: "take (Suc i) P = take i P @ [P ! i]"
    using lenP by (rule take_Suc_conv_app_nth)
  have Q_take: "take (Suc i) Q = take i Q @ [Q ! i]"
    using lenQ by (rule take_Suc_conv_app_nth)
  show ?thesis
  proof (cases "i = 0")
    case True
    then show ?thesis using at_i P_take Q_take by (simp add: attack_push_def)
  next
    case False
    note i0 = False
    show ?thesis
    proof (cases "i = 1")
      case True
      then show ?thesis using at_i P_take Q_take by (simp add: attack_push_def)
    next
      case False
      then show ?thesis using at_i i0 P_take Q_take by (simp add: attack_push_def)
    qed
  qed
qed

text \<open>
  Claim C6. For every term sequence \<open>cf\<close>, \<^verbatim>\<open>buildConvergents\<close> returns \<open>P\<close> and \<open>Q\<close> of
  the length of \<open>cf\<close> (both empty for the empty sequence) with \<open>P\<^sub>0 = a\<^sub>0\<close>, \<open>Q\<^sub>0 = 1\<close>,
  \<open>P\<^sub>1 = a\<^sub>1 a\<^sub>0 + 1\<close>, \<open>Q\<^sub>1 = a\<^sub>1\<close> and, from index 2 on,
  \<open>P\<^sub>i = a\<^sub>i P\<^sub>i\<^sub>-\<^sub>1 + P\<^sub>i\<^sub>-\<^sub>2\<close> and \<open>Q\<^sub>i = a\<^sub>i Q\<^sub>i\<^sub>-\<^sub>1 + Q\<^sub>i\<^sub>-\<^sub>2\<close>. The loop of \<^verbatim>\<open>attack\<close> in
  wiener.cpp appends the same entries: its \<open>i\<close>-th iteration takes the first \<open>i\<close> entries
  of \<open>P\<close> and \<open>Q\<close> to the first \<open>i + 1\<close>.
\<close>

theorem buildConvergents_recurrence:
  assumes "buildConvergents cf = (P, Q)"
  shows "length P = length cf \<and> length Q = length cf \<and>
     (cf = [] \<longrightarrow> P = [] \<and> Q = []) \<and>
     (0 < length cf \<longrightarrow> P ! 0 = cf ! 0 \<and> Q ! 0 = 1) \<and>
     (1 < length cf \<longrightarrow> P ! 1 = cf ! 1 * cf ! 0 + 1 \<and> Q ! 1 = cf ! 1) \<and>
     (\<forall>i. 2 \<le> i \<and> i < length cf \<longrightarrow>
        P ! i = cf ! i * P ! (i - 1) + P ! (i - 2) \<and>
        Q ! i = cf ! i * Q ! (i - 1) + Q ! (i - 2)) \<and>
     (\<forall>i. i < length cf \<longrightarrow>
        attack_push cf i (take i P, take i Q) = (take (Suc i) P, take (Suc i) Q))"
proof -
  note idx = buildConvergents_index [OF assms]
  have lens: "length P = length cf" "length Q = length cf"
    using idx by simp_all
  have empty: "cf = [] \<longrightarrow> P = [] \<and> Q = []"
    using lens by auto
  have first: "0 < length cf \<longrightarrow> P ! 0 = cf ! 0 \<and> Q ! 0 = 1"
    using idx by auto
  have second: "1 < length cf \<longrightarrow> P ! 1 = cf ! 1 * cf ! 0 + 1 \<and> Q ! 1 = cf ! 1"
    using idx [THEN conjunct2, THEN conjunct2, rule_format, of 1] by simp
  have later: "\<forall>i. 2 \<le> i \<and> i < length cf \<longrightarrow>
        P ! i = cf ! i * P ! (i - 1) + P ! (i - 2) \<and>
        Q ! i = cf ! i * Q ! (i - 1) + Q ! (i - 2)"
  proof (intro allI impI)
    fix i
    assume "2 \<le> i \<and> i < length cf"
    then show "P ! i = cf ! i * P ! (i - 1) + P ! (i - 2) \<and>
        Q ! i = cf ! i * Q ! (i - 1) + Q ! (i - 2)"
      using idx [THEN conjunct2, THEN conjunct2, rule_format, of i] by simp
  qed
  have push: "\<forall>i. i < length cf \<longrightarrow>
        attack_push cf i (take i P, take i Q) = (take (Suc i) P, take (Suc i) Q)"
    using attack_push_take [OF assms] by simp
  show ?thesis
    using lens empty first second later push by (intro conjI)
qed

theorem buildConvergents_recurrence_witness:
  "buildConvergents [0, 5, 29, 4] = ([0, 1, 29, 117], [1, 5, 146, 589]) \<and>
   length [0, 1, 29, 117 :: int] = length [0, 5, 29, 4 :: int] \<and>
   [0, 1, 29, 117] ! 3 = [0, 5, 29, 4] ! 3 * [0, 1, 29, 117] ! (3 - 1) + [0, 1, 29, 117 :: int] ! (3 - 2) \<and>
   [1, 5, 146, 589] ! 3 = [0, 5, 29, 4] ! 3 * [1, 5, 146, 589] ! (3 - 1) + [1, 5, 146, 589 :: int] ! (3 - 2) \<and>
   attack_push [0, 5, 29, 4] 3 (take 3 [0, 1, 29, 117], take 3 [1, 5, 146, 589]) =
     (take (Suc 3) [0, 1, 29, 117], take (Suc 3) [1, 5, 146, 589])"
proof -
  have built: "buildConvergents [0, 5, 29, 4] = ([0, 1, 29, 117], [1, 5, 146, 589])"
    by (simp add: buildConvergents_def bc_loop.simps)
  note rec = buildConvergents_recurrence [OF built]
  have len: "length [0, 5, 29, 4 :: int] = 4"
    by simp
  have in_range: "(2::nat) \<le> 3 \<and> 3 < length [0, 5, 29, 4 :: int]" "3 < length [0, 5, 29, 4 :: int]"
    by simp_all
  note lens = rec [THEN conjunct1]
  note later = rec [THEN conjunct2, THEN conjunct2, THEN conjunct2, THEN conjunct2,
      THEN conjunct2, THEN conjunct1, rule_format, OF in_range(1)]
  note push = rec [THEN conjunct2, THEN conjunct2, THEN conjunct2, THEN conjunct2,
      THEN conjunct2, THEN conjunct2, rule_format, OF in_range(2)]
  show ?thesis
    using built lens later [THEN conjunct1] later [THEN conjunct2] push by (intro conjI)
qed

section \<open>Evaluation at concrete keys\<close>

lemmas ntl_eval = IsZero_def divide_zz_def sign_zz_def SqrRoot_def SqrRoot_nat.simps

lemma cf_17993_90581:
  "computeContinuedFraction 17993 90581 = [0, 5, 29, 4, 1, 3, 2, 4, 3]"
  by (simp add: computeContinuedFraction_def cf_loop.simps IsZero_def)

lemma convergents_17993_90581:
  "buildConvergents [0, 5, 29, 4, 1, 3, 2, 4, 3] =
     ([0, 1, 29, 117, 146, 555, 1256, 5579, 17993],
      [1, 5, 146, 589, 735, 2794, 6323, 28086, 90581])"
  by (simp add: buildConvergents_def bc_loop.simps)

lemma tryRecover_17993_90581:
  "tryRecoverFromConvergent 0 1 17993 90581 = None"
  "tryRecoverFromConvergent 1 5 17993 90581 = Some (379, 5)"
  by (simp_all add: tryRecoverFromConvergent_def isPerfectSquare_def Let_def ntl_eval)

lemmas attack_eval = attack_def oblicz_wartosc_ulamka_lancuchowego_def oblicz_loop.simps
  attack_loop.simps attack_push_def attack_check_def Let_def ntl_eval

lemma attack_loop_5_9:
  "attack_loop 5 9 (oblicz_wartosc_ulamka_lancuchowego 5 9) 0 ([], []) 0 = None"
  by (simp add: attack_eval)

lemma attack_loop_17993_90581:
  "attack_loop 17993 90581 (oblicz_wartosc_ulamka_lancuchowego 17993 90581) 0 ([], []) 0
     = Some [239, 5]"
  by (simp add: attack_eval)


section \<open>The scan over the convergents\<close>

lemma wa_loop_SomeD:
  "wa_loop P Q e N i0 = Some r \<Longrightarrow>
   \<exists>i. i0 \<le> i \<and> i < length P \<and> tryRecoverFromConvergent (P ! i) (Q ! i) e N = Some r \<and>
       (\<forall>j. i0 \<le> j \<and> j < i \<longrightarrow> tryRecoverFromConvergent (P ! j) (Q ! j) e N = None)"
proof (induction P Q e N i0 rule: wa_loop.induct)
  case (1 P Q e N i)
  have in_range: "i < length P"
    using "1.prems" by (subst (asm) wa_loop.simps) (simp split: if_splits)
  show ?case
  proof (cases "tryRecoverFromConvergent (P ! i) (Q ! i) e N")
    case (Some res)
    then have "res = r"
      using "1.prems" in_range by (subst (asm) wa_loop.simps) simp
    then show ?thesis
      using Some in_range by (intro exI [of _ i]) auto
  next
    case None
    then have "wa_loop P Q e N (i + 1) = Some r"
      using "1.prems" in_range by (subst (asm) wa_loop.simps) simp
    from "1.IH" [OF in_range None this]
    obtain i' where i': "i + 1 \<le> i'" "i' < length P"
        "tryRecoverFromConvergent (P ! i') (Q ! i') e N = Some r"
        "\<forall>j. i + 1 \<le> j \<and> j < i' \<longrightarrow> tryRecoverFromConvergent (P ! j) (Q ! j) e N = None"
      by blast
    have "tryRecoverFromConvergent (P ! j) (Q ! j) e N = None" if "i \<le> j \<and> j < i'" for j
    proof (cases "j = i")
      case True
      then show ?thesis using None by simp
    next
      case False
      then show ?thesis using i'(4) that by simp
    qed
    then show ?thesis
      using i'(1-3) by (intro exI [of _ i']) auto
  qed
qed

lemma wa_loop_SomeI:
  "i0 \<le> i \<Longrightarrow> i < length P \<Longrightarrow> tryRecoverFromConvergent (P ! i) (Q ! i) e N = Some r \<Longrightarrow>
   (\<forall>j. i0 \<le> j \<and> j < i \<longrightarrow> tryRecoverFromConvergent (P ! j) (Q ! j) e N = None) \<Longrightarrow>
   wa_loop P Q e N i0 = Some r"
proof (induction "i - i0" arbitrary: i0)
  case 0
  then have "i0 = i" by simp
  then show ?case
    using "0.prems" by (subst wa_loop.simps) simp
next
  case (Suc n)
  then have less: "i0 < i" by simp
  then have here: "tryRecoverFromConvergent (P ! i0) (Q ! i0) e N = None"
    using Suc.prems by simp
  have "wa_loop P Q e N (i0 + 1) = Some r"
  proof (rule Suc.hyps(1))
    show "n = i - (i0 + 1)" using Suc.hyps(2) by simp
    show "i0 + 1 \<le> i" using less by simp
    show "i < length P" by (rule Suc.prems(2))
    show "tryRecoverFromConvergent (P ! i) (Q ! i) e N = Some r" by (rule Suc.prems(3))
    show "\<forall>j. i0 + 1 \<le> j \<and> j < i \<longrightarrow> tryRecoverFromConvergent (P ! j) (Q ! j) e N = None"
      using Suc.prems(4) by simp
  qed
  then show ?case
    using here less Suc.prems(2) by (subst wa_loop.simps) simp
qed

lemma wa_loop_prefix:
  assumes "i < length P" and "i < length Q"
    and "tryRecoverFromConvergent (P ! i) (Q ! i) e N = Some r"
    and "\<forall>j<i. tryRecoverFromConvergent (P ! j) (Q ! j) e N = None"
  shows "wa_loop (take (Suc i) P @ P') (take (Suc i) Q @ Q') e N 0 = Some r"
proof (rule wa_loop_SomeI [where i = i])
  have same: "(take (Suc i) P @ P') ! j = P ! j \<and> (take (Suc i) Q @ Q') ! j = Q ! j"
    if "j \<le> i" for j
    using that assms(1,2) by (simp add: nth_append)
  show "0 \<le> i" by simp
  show "i < length (take (Suc i) P @ P')" using assms(1) by simp
  show "tryRecoverFromConvergent ((take (Suc i) P @ P') ! i) ((take (Suc i) Q @ Q') ! i) e N = Some r"
    using same [of i] assms(3) by simp
  show "\<forall>j. 0 \<le> j \<and> j < i \<longrightarrow>
      tryRecoverFromConvergent ((take (Suc i) P @ P') ! j) ((take (Suc i) Q @ Q') ! j) e N = None"
    using same assms(4) by simp
qed

section \<open>The result vector of wiener.cpp\<close>

lemma attack_check_Some:
  "attack_check k d e N p1 = (Some wynik, p1') \<Longrightarrow> length wynik = 2"
  by (auto simp: attack_check_def Let_def split: if_splits)

lemma attack_loop_Some:
  "attack_loop e N w i PQ p1 = Some wynik \<Longrightarrow> length wynik = 2"
proof (induction e N w i PQ p1 rule: attack_loop.induct)
  case (1 e N w i PQ p1)
  have in_range: "i < length w"
    using "1.prems" by (subst (asm) attack_loop.simps) (simp split: if_splits)
  obtain res p1' where check:
    "attack_check (fst (attack_push w i PQ) ! i) (snd (attack_push w i PQ) ! i) e N p1 = (res, p1')"
    by (cases "attack_check (fst (attack_push w i PQ) ! i) (snd (attack_push w i PQ) ! i) e N p1")
  show ?case
  proof (cases res)
    case None
    have "attack_loop e N w (i + 1) (attack_push w i PQ) p1' = Some wynik"
      using "1.prems" in_range check None by (subst (asm) attack_loop.simps) simp
    then show ?thesis
      using "1.IH" [OF in_range check [symmetric] None] by simp
  next
    case (Some v)
    then have "v = wynik"
      using "1.prems" in_range check by (subst (asm) attack_loop.simps) simp
    then show ?thesis
      using attack_check_Some check Some by simp
  qed
qed

text \<open>
  Claim C10. When the loop of \<^verbatim>\<open>attack\<close> in wiener.cpp runs through all convergents
  without returning, \<^verbatim>\<open>attack\<close> returns the vector of length 1 holding the sentinel \<open>0\<close>:
  the driver's read \<open>wynik[0]\<close> is in range and its read \<open>wynik[1]\<close> is beyond the end.
  When the loop returns, the vector has length 2 and both reads are in range.
\<close>

theorem attack_sentinel:
  "(attack_loop e N (oblicz_wartosc_ulamka_lancuchowego e N) 0 ([], []) 0 = None \<longrightarrow>
      attack e N = [0] \<and> vec_at (attack e N) 0 = Some 0 \<and> vec_at (attack e N) 1 = None \<and>
      main_wiener e N = OutOfRange) \<and>
   (attack_loop e N (oblicz_wartosc_ulamka_lancuchowego e N) 0 ([], []) 0 \<noteq> None \<longrightarrow>
      length (attack e N) = 2 \<and> vec_at (attack e N) 0 \<noteq> None \<and> vec_at (attack e N) 1 \<noteq> None)"
proof (intro conjI impI)
  assume failed: "attack_loop e N (oblicz_wartosc_ulamka_lancuchowego e N) 0 ([], []) 0 = None"
  then show sentinel: "attack e N = [0]"
    by (simp add: attack_def)
  then show "vec_at (attack e N) 0 = Some 0" and "vec_at (attack e N) 1 = None"
    by (simp_all add: vec_at_def)
  then show "main_wiener e N = OutOfRange"
    by (simp add: main_wiener_def)
next
  assume "attack_loop e N (oblicz_wartosc_ulamka_lancuchowego e N) 0 ([], []) 0 \<noteq> None"
  then obtain wynik where
    found: "attack_loop e N (oblicz_wartosc_ulamka_lancuchowego e N) 0 ([], []) 0 = Some wynik"
    by blast
  then show len: "length (attack e N) = 2"
    using attack_loop_Some [OF found] by (simp add: attack_def)
  then show "vec_at (attack e N) 0 \<noteq> None" and "vec_at (attack e N) 1 \<noteq> None"
    by (simp_all add: vec_at_def)
qed

theorem attack_sentinel_witness:
  "attack_loop 5 9 (oblicz_wartosc_ulamka_lancuchowego 5 9) 0 ([], []) 0 = None \<and>
   attack 5 9 = [0] \<and> vec_at (attack 5 9) 0 = Some 0 \<and> vec_at (attack 5 9) 1 = None \<and>
   main_wiener 5 9 = OutOfRange \<and>
   attack_loop 17993 90581 (oblicz_wartosc_ulamka_lancuchowego 17993 90581) 0 ([], []) 0 \<noteq> None \<and>
   length (attack 17993 90581) = 2 \<and> vec_at (attack 17993 90581) 1 \<noteq> None"
proof -
  have found:
    "attack_loop 17993 90581 (oblicz_wartosc_ulamka_lancuchowego 17993 90581) 0 ([], []) 0 \<noteq> None"
    by (simp only: attack_loop_17993_90581) simp
  note failure = attack_sentinel [of 5 9, THEN conjunct1, rule_format, OF attack_loop_5_9]
  note success = attack_sentinel [of 17993 90581, THEN conjunct2, rule_format, OF found]
  show ?thesis
    using attack_loop_5_9 failure found success by blast
qed

section \<open>The integer square root\<close>

lemma SqrRoot_nat_floor:
  "SqrRoot_nat n * SqrRoot_nat n \<le> n \<and> n < (SqrRoot_nat n + 1) * (SqrRoot_nat n + 1)"
proof (induction n rule: SqrRoot_nat.induct)
  case (1 n)
  show ?case
  proof (cases "n < 2")
    case True
    then have "SqrRoot_nat n = n"
      by (subst SqrRoot_nat.simps) simp
    moreover have "n = 0 \<or> n = 1"
      using True by auto
    ultimately show ?thesis by auto
  next
    case False
    define r where "r = SqrRoot_nat (n div 4)"
    have IH: "r * r \<le> n div 4" "n div 4 < (r + 1) * (r + 1)"
      using "1.IH" False by (simp_all add: r_def)
    have low: "4 * (r * r) \<le> n"
      using IH(1) by linarith
    have "n div 4 + 1 \<le> (r + 1) * (r + 1)"
      using IH(2) by simp
    then have "4 * (n div 4) + 4 \<le> 4 * ((r + 1) * (r + 1))"
      by linarith
    then have high: "n < 4 * ((r + 1) * (r + 1))"
      by linarith
    have sq_even: "(2 * r) * (2 * r) = 4 * (r * r)"
      by simp
    have sq_next: "(2 * r + 1 + 1) * (2 * r + 1 + 1) = 4 * ((r + 1) * (r + 1))"
      by (simp add: algebra_simps)
    show ?thesis
    proof (cases "(2 * r + 1) * (2 * r + 1) \<le> n")
      case True
      then have "SqrRoot_nat n = 2 * r + 1"
        using False by (subst SqrRoot_nat.simps) (simp add: r_def)
      then show ?thesis
        using True high sq_next by simp
    next
      case odd: False
      then have "SqrRoot_nat n = 2 * r"
        using False by (subst SqrRoot_nat.simps) (simp add: r_def)
      then show ?thesis
        using odd low sq_even by simp
    qed
  qed
qed

lemma SqrRoot_floor:
  assumes "0 \<le> a"
  shows "0 \<le> SqrRoot a" and "SqrRoot a * SqrRoot a \<le> a"
    and "a < (SqrRoot a + 1) * (SqrRoot a + 1)"
proof -
  define n where "n = nat a"
  have a: "a = int n"
    using assms by (simp add: n_def)
  have root: "SqrRoot (int n) = int (SqrRoot_nat n)"
    by (simp add: SqrRoot_def)
  show "0 \<le> SqrRoot a"
    unfolding a root by simp
  have "int (SqrRoot_nat n * SqrRoot_nat n) \<le> int n"
    using SqrRoot_nat_floor [of n] by (simp only: of_nat_le_iff)
  then show "SqrRoot a * SqrRoot a \<le> a"
    unfolding a root by simp
  have "int n < int ((SqrRoot_nat n + 1) * (SqrRoot_nat n + 1))"
    using SqrRoot_nat_floor [of n] by (simp only: of_nat_less_iff)
  also have "\<dots> = (int (SqrRoot_nat n) + 1) * (int (SqrRoot_nat n) + 1)"
    by (simp add: algebra_simps)
  finally show "a < (SqrRoot a + 1) * (SqrRoot a + 1)"
    unfolding a root .
qed

lemma square_le_imp_le:
  fixes x y :: int
  assumes "x * x \<le> y * y" and "0 \<le> x" and "0 \<le> y"
  shows "x \<le> y"
proof (rule ccontr)
  assume "\<not> x \<le> y"
  then have "y < x" by simp
  then have "y * y < x * x"
    using assms(3) by (simp add: mult_strict_mono')
  then show False using assms(1) by simp
qed

lemma SqrRoot_square:
  assumes "r * r = a"
  shows "SqrRoot a = \<bar>r\<bar>"
proof -
  have a: "0 \<le> a"
    using zero_le_square [of r] assms by simp
  note fl = SqrRoot_floor [OF a]
  have abs_sq: "\<bar>r\<bar> * \<bar>r\<bar> = a"
    using assms by simp
  have "SqrRoot a * SqrRoot a \<le> \<bar>r\<bar> * \<bar>r\<bar>"
    using fl(2) abs_sq by simp
  then have "SqrRoot a \<le> \<bar>r\<bar>"
    using fl(1) by (rule square_le_imp_le) simp
  moreover have "\<bar>r\<bar> < SqrRoot a + 1"
  proof (rule ccontr)
    assume "\<not> \<bar>r\<bar> < SqrRoot a + 1"
    then have le: "SqrRoot a + 1 \<le> \<bar>r\<bar>" by simp
    have nn: "0 \<le> SqrRoot a + 1" "0 \<le> \<bar>r\<bar>"
      using fl(1) by simp_all
    have "(SqrRoot a + 1) * (SqrRoot a + 1) \<le> \<bar>r\<bar> * \<bar>r\<bar>"
      by (rule mult_mono [OF le le nn(2) nn(1)])
    then show False using fl(3) abs_sq by simp
  qed
  ultimately show ?thesis by simp
qed

lemma isPerfectSquare_iff:
  "fst (isPerfectSquare n root) \<longleftrightarrow> (\<exists>r. r * r = n)"
proof
  assume "fst (isPerfectSquare n root)"
  then have "SqrRoot n * SqrRoot n = n"
    by (simp add: isPerfectSquare_def split: if_splits)
  then show "\<exists>r. r * r = n" by blast
next
  assume "\<exists>r. r * r = n"
  then obtain r where r: "r * r = n" by blast
  then have "0 \<le> n" using zero_le_square [of r] by simp
  moreover have "SqrRoot n * SqrRoot n = n"
    using SqrRoot_square [OF r] r by simp
  ultimately show "fst (isPerfectSquare n root)"
    by (simp add: isPerfectSquare_def)
qed

section \<open>The test of one convergent\<close>

lemma tryRecover_unfold:
  "tryRecoverFromConvergent k d e N =
     (if k = 0 \<or> \<not> k dvd e * d - 1 then None
      else if discriminant N (phi_candidate k d e) < 0 \<or>
              SqrRoot (discriminant N (phi_candidate k d e)) *
              SqrRoot (discriminant N (phi_candidate k d e)) \<noteq> discriminant N (phi_candidate k d e)
           then None
      else try_roots
             [- coefficient_b N (phi_candidate k d e) + SqrRoot (discriminant N (phi_candidate k d e)),
              - coefficient_b N (phi_candidate k d e) - SqrRoot (discriminant N (phi_candidate k d e))]
             2 N d)"
  by (simp add: tryRecoverFromConvergent_def isPerfectSquare_def Let_def IsZero_def divide_zz_def
      phi_candidate_def coefficient_b_def discriminant_def)

lemma try_roots_two:
  "try_roots [r1, r2] 2 N d =
     (if 2 dvd r1 \<and> 0 < r1 div 2 \<and> r1 div 2 dvd N then Some (r1 div 2, d)
      else if 2 dvd r2 \<and> 0 < r2 div 2 \<and> r2 div 2 dvd N then Some (r2 div 2, d)
      else None)"
  by (simp add: divide_zz_def)

lemma sign_zz_pos [simp]: "0 < sign_zz a \<longleftrightarrow> 0 < a"
  by (simp add: sign_zz_def)

lemma sign_zz_zero [simp]: "sign_zz a = 0 \<longleftrightarrow> a = 0"
  by (simp add: sign_zz_def)

lemma attack_check_unfold:
  "fst (attack_check k d e N p1) =
     (if k = 0 \<or> \<not> k dvd e * d - 1 then None
      else if 0 < discriminant N (phi_candidate k d e) then
        (if 2 dvd - coefficient_b N (phi_candidate k d e) + SqrRoot (discriminant N (phi_candidate k d e))
         then
           (if 0 < (- coefficient_b N (phi_candidate k d e) + SqrRoot (discriminant N (phi_candidate k d e))) div 2 \<and>
               (- coefficient_b N (phi_candidate k d e) + SqrRoot (discriminant N (phi_candidate k d e))) div 2 dvd N
            then Some [N div ((- coefficient_b N (phi_candidate k d e) + SqrRoot (discriminant N (phi_candidate k d e))) div 2), d]
            else None)
         else if 2 dvd - coefficient_b N (phi_candidate k d e) - SqrRoot (discriminant N (phi_candidate k d e))
         then
           (if 0 < (- coefficient_b N (phi_candidate k d e) - SqrRoot (discriminant N (phi_candidate k d e))) div 2 \<and>
               (- coefficient_b N (phi_candidate k d e) - SqrRoot (discriminant N (phi_candidate k d e))) div 2 dvd N
            then Some [N div ((- coefficient_b N (phi_candidate k d e) - SqrRoot (discriminant N (phi_candidate k d e))) div 2), d]
            else None)
         else None)
      else if discriminant N (phi_candidate k d e) = 0 then
        (if 2 dvd - coefficient_b N (phi_candidate k d e) \<and> 0 < p1 div 2 \<and> p1 div 2 dvd N
         then Some [N div (p1 div 2), d] else None)
      else None)"
proof (cases "k = 0 \<or> \<not> k dvd e * d - 1")
  case True
  then show ?thesis
    by (auto simp add: attack_check_def Let_def IsZero_def divide_zz_def)
next
  case False
  note usable = False
  show ?thesis
  proof (cases "0 < discriminant N (phi_candidate k d e)")
    case True
    then show ?thesis
      using usable
      by (simp add: attack_check_def Let_def IsZero_def divide_zz_def power2_eq_square
          phi_candidate_def coefficient_b_def discriminant_def)
  next
    case False
    then show ?thesis
      using usable
      by (simp add: attack_check_def Let_def IsZero_def divide_zz_def power2_eq_square
          phi_candidate_def coefficient_b_def discriminant_def)
  qed
qed

lemma floor_root_exact:
  fixes N b s x :: int
  assumes N: "0 < N" and lo: "s * s \<le> b * b - 4 * N" and hi: "b * b - 4 * N < (s + 1) * (s + 1)"
    and x2: "2 * x = - b + s" and xpos: "0 < x" and xdvd: "x dvd N"
  shows "s * s = b * b - 4 * N"
proof -
  obtain y where y: "N = x * y"
    using xdvd by (auto simp: dvd_def)
  have ypos: "0 < y"
    using N xpos y by (simp add: zero_less_mult_iff)
  define u where "u = - b - x - y"
  have b: "b = - (x + y + u)"
    by (simp add: u_def)
  have s: "s = x - y - u"
    using x2 b by simp
  have gap: "b * b - 4 * N - s * s = 4 * (x * u)"
    unfolding b s y by (simp add: algebra_simps)
  have "0 \<le> x * u"
    using lo gap by simp
  then have u0: "0 \<le> u"
    using xpos by (simp add: zero_le_mult_iff)
  have "(s + 1) * (s + 1) - s * s = 2 * s + 1"
    by (simp add: algebra_simps)
  then have upper: "4 * (x * u) < 2 * (x - y - u) + 1"
    using hi gap s by simp
  have "u = 0"
  proof (rule ccontr)
    assume "u \<noteq> 0"
    then have "1 \<le> u" using u0 by simp
    then have "x * 1 \<le> x * u"
      using xpos by (intro mult_left_mono) simp_all
    then have "x \<le> x * u"
      by simp
    then show False
      using upper ypos xpos u0 by presburger
  qed
  then show ?thesis
    using gap by simp
qed

lemma vieta:
  fixes N b s x y :: int
  assumes "s * s = b * b - 4 * N" and "2 * x = - b + s" and "2 * y = - b - s"
  shows "x * y = N" and "x + y = - b"
proof -
  have "4 * (x * y) = (2 * x) * (2 * y)"
    by simp
  also have "\<dots> = (- b + s) * (- b - s)"
    by (simp only: assms(2,3))
  also have "\<dots> = b * b - s * s"
    by (simp add: algebra_simps)
  also have "\<dots> = 4 * N"
    using assms(1) by simp
  finally show "x * y = N" by simp
  show "x + y = - b"
    using assms(2,3) by simp
qed

lemma zero_discriminant_square:
  fixes N b :: int
  assumes "b * b - 4 * N = 0"
  shows "\<exists>r. r * r = N"
proof -
  have sq: "b * b = 4 * N"
    using assms by simp
  have "even (b * b)"
    unfolding sq by simp
  then have "even b"
    by simp
  then obtain c where c: "b = 2 * c"
    by (auto elim: evenE)
  have "c * c = N"
    using sq unfolding c by simp
  then show ?thesis by blast
qed

lemma root_parity:
  fixes b s :: int
  shows "2 dvd - b - s \<longleftrightarrow> 2 dvd - b + s"
  by presburger

lemma attack_check_rejects_non_square:
  assumes N: "0 < N" and non_square: "\<not> (\<exists>r. r * r = discriminant N (phi_candidate k d e))"
  shows "fst (attack_check k d e N p1) = None"
proof -
  define b where "b = coefficient_b N (phi_candidate k d e)"
  define D where "D = discriminant N (phi_candidate k d e)"
  define s where "s = SqrRoot D"
  define r1 where "r1 = - b + s"
  define r2 where "r2 = - b - s"
  have check: "fst (attack_check k d e N p1) =
     (if k = 0 \<or> \<not> k dvd e * d - 1 then None
      else if 0 < D then
        (if 2 dvd r1 then
           (if 0 < r1 div 2 \<and> r1 div 2 dvd N then Some [N div (r1 div 2), d] else None)
         else if 2 dvd r2 then
           (if 0 < r2 div 2 \<and> r2 div 2 dvd N then Some [N div (r2 div 2), d] else None)
         else None)
      else if D = 0 then
        (if 2 dvd - b \<and> 0 < p1 div 2 \<and> p1 div 2 dvd N then Some [N div (p1 div 2), d] else None)
      else None)"
    unfolding r1_def r2_def s_def D_def b_def by (rule attack_check_unfold)
  have D: "D = b * b - 4 * N"
    by (simp add: D_def b_def discriminant_def)
  have not_zero: "D \<noteq> 0"
  proof
    assume "D = 0"
    then have "0 * 0 = D" by simp
    then show False using non_square unfolding D_def by blast
  qed
  have not_exact: "s * s \<noteq> D"
    using non_square unfolding D_def s_def by blast
  have parity: "2 dvd r2 \<longleftrightarrow> 2 dvd r1"
    unfolding r1_def r2_def by (rule root_parity)
  have first: "\<not> (0 < r1 div 2 \<and> r1 div 2 dvd N)" if pos: "0 < D" and even: "2 dvd r1"
  proof
    assume ok: "0 < r1 div 2 \<and> r1 div 2 dvd N"
    have D0: "0 \<le> D" using pos by simp
    have "s * s = b * b - 4 * N"
    proof (rule floor_root_exact [OF N])
      show "s * s \<le> b * b - 4 * N"
        using SqrRoot_floor(2) [OF D0] by (simp add: s_def D)
      show "b * b - 4 * N < (s + 1) * (s + 1)"
        using SqrRoot_floor(3) [OF D0] by (simp add: s_def D)
      show "2 * (r1 div 2) = - b + s"
        using even by (simp add: r1_def)
      show "0 < r1 div 2" using ok by simp
      show "r1 div 2 dvd N" using ok by simp
    qed
    then show False using not_exact D by simp
  qed
  show ?thesis
    unfolding check using not_zero first parity by auto
qed

lemma attack_check_matches_tryRecover:
  assumes N: "0 < N" and non_square: "\<not> (\<exists>r. r * r = N)"
  shows "fst (attack_check k d e N p1) =
    map_option (\<lambda>(q, d'). [N div q, d']) (tryRecoverFromConvergent k d e N)"
proof -
  define b where "b = coefficient_b N (phi_candidate k d e)"
  define D where "D = discriminant N (phi_candidate k d e)"
  define s where "s = SqrRoot D"
  define r1 where "r1 = - b + s"
  define r2 where "r2 = - b - s"
  have check: "fst (attack_check k d e N p1) =
     (if k = 0 \<or> \<not> k dvd e * d - 1 then None
      else if 0 < D then
        (if 2 dvd r1 then
           (if 0 < r1 div 2 \<and> r1 div 2 dvd N then Some [N div (r1 div 2), d] else None)
         else if 2 dvd r2 then
           (if 0 < r2 div 2 \<and> r2 div 2 dvd N then Some [N div (r2 div 2), d] else None)
         else None)
      else if D = 0 then
        (if 2 dvd - b \<and> 0 < p1 div 2 \<and> p1 div 2 dvd N then Some [N div (p1 div 2), d] else None)
      else None)"
    unfolding r1_def r2_def s_def D_def b_def by (rule attack_check_unfold)
  have recover: "tryRecoverFromConvergent k d e N =
     (if k = 0 \<or> \<not> k dvd e * d - 1 then None
      else if D < 0 \<or> s * s \<noteq> D then None
      else if 2 dvd r1 \<and> 0 < r1 div 2 \<and> r1 div 2 dvd N then Some (r1 div 2, d)
      else if 2 dvd r2 \<and> 0 < r2 div 2 \<and> r2 div 2 dvd N then Some (r2 div 2, d)
      else None)"
    unfolding r1_def r2_def s_def D_def b_def tryRecover_unfold try_roots_two by (rule refl)
  have D: "D = b * b - 4 * N"
    by (simp add: D_def b_def discriminant_def)
  have not_zero: "D \<noteq> 0"
    using zero_discriminant_square [of b N] non_square D by auto
  have parity: "2 dvd r2 \<longleftrightarrow> 2 dvd r1"
    unfolding r1_def r2_def by (rule root_parity)
  show ?thesis
  proof (cases "s * s = D")
    case False
    then have "\<not> (\<exists>r. r * r = D)"
      using SqrRoot_square [of _ D] by (auto simp: s_def)
    then have "fst (attack_check k d e N p1) = None"
      unfolding D_def by (rule attack_check_rejects_non_square [OF N])
    moreover have "tryRecoverFromConvergent k d e N = None"
      unfolding recover using False by simp
    ultimately show ?thesis by simp
  next
    case True
    note exact = True
    then have D0: "0 \<le> D"
      using zero_le_square [of s] by simp
    then have Dpos: "0 < D"
      using not_zero by simp
    show ?thesis
    proof (cases "2 dvd r1")
      case False
      then show ?thesis
        unfolding check recover using parity Dpos by simp
    next
      case True
      then have even2: "2 dvd r2"
        using parity by simp
      define x where "x = r1 div 2"
      define y where "y = r2 div 2"
      have x2: "2 * x = - b + s" and y2: "2 * y = - b - s"
        using True even2 by (simp_all add: x_def y_def r1_def r2_def)
      have prod: "x * y = N"
        using vieta(1) [OF _ x2 y2] exact D by simp
      have x_dvd: "x dvd N"
        unfolding prod [symmetric] by simp
      have second_fails: "\<not> 0 < y" if "\<not> 0 < x"
      proof
        assume "0 < y"
        moreover have "x \<le> 0" using that by simp
        ultimately have "x * y \<le> 0"
          by (simp add: mult_le_0_iff)
        then show False using prod N by simp
      qed
      show ?thesis
        unfolding check recover x_def [symmetric] y_def [symmetric]
        using True even2 exact Dpos x_dvd second_fails by auto
    qed
  qed
qed

section \<open>wiener.cpp against wiener\_attack.cpp\<close>

lemma wienerAttack_is_loop:
  assumes "buildConvergents (computeContinuedFraction e N) = (P, Q)"
  shows "wienerAttack e N = wa_loop P Q e N 0"
proof (cases "computeContinuedFraction e N = []")
  case True
  then have "P = []"
    using buildConvergents_index [OF assms] by simp
  then show ?thesis
    using True by (simp add: wienerAttack_def wa_loop.simps)
next
  case False
  then show ?thesis using assms by (simp add: wienerAttack_def)
qed

lemma attack_loop_matches_wa_loop:
  assumes N: "0 < N" and non_square: "\<not> (\<exists>r. r * r = N)"
    and built: "buildConvergents w = (P, Q)"
  shows "i \<le> length w \<Longrightarrow>
    attack_loop e N w i (take i P, take i Q) p1 =
      map_option (\<lambda>(q, d'). [N div q, d']) (wa_loop P Q e N i)"
proof (induction "length w - i" arbitrary: i p1)
  case 0
  then have "i = length w" by simp
  then have "\<not> i < length w" and "\<not> i < length P"
    using buildConvergents_index [OF built] by simp_all
  then show ?case
    by (subst attack_loop.simps, subst wa_loop.simps) simp
next
  case (Suc n)
  then have in_range: "i < length w" by simp
  then have iP: "i < length P" and iQ: "i < length Q"
    using buildConvergents_index [OF built] by simp_all
  have push: "attack_push w i (take i P, take i Q) = (take (Suc i) P, take (Suc i) Q)"
    using built in_range by (rule attack_push_take)
  obtain res p1' where check: "attack_check (P ! i) (Q ! i) e N p1 = (res, p1')"
    by (cases "attack_check (P ! i) (Q ! i) e N p1")
  have res: "res = map_option (\<lambda>(q, d'). [N div q, d']) (tryRecoverFromConvergent (P ! i) (Q ! i) e N)"
    using attack_check_matches_tryRecover [OF N non_square, of "P ! i" "Q ! i" e p1] check
    by simp
  have unfold_attack: "attack_loop e N w i (take i P, take i Q) p1 =
      (case res of Some wynik \<Rightarrow> Some wynik
       | None \<Rightarrow> attack_loop e N w (i + 1) (take (i + 1) P, take (i + 1) Q) p1')"
    using in_range check
    by (subst attack_loop.simps) (simp add: push split: option.splits)
  have unfold_wa: "wa_loop P Q e N i =
      (case tryRecoverFromConvergent (P ! i) (Q ! i) e N of Some r \<Rightarrow> Some r
       | None \<Rightarrow> wa_loop P Q e N (i + 1))"
    using iP by (subst wa_loop.simps) simp
  have IH: "attack_loop e N w (i + 1) (take (i + 1) P, take (i + 1) Q) p1' =
      map_option (\<lambda>(q, d'). [N div q, d']) (wa_loop P Q e N (i + 1))"
    using Suc.hyps(2) in_range by (intro Suc.hyps(1)) simp_all
  show ?case
    unfolding unfold_attack unfold_wa res IH
    by (simp split: option.splits)
qed

lemma tryRecover_divides:
  assumes "tryRecoverFromConvergent k d e N = Some (q, d')"
  shows "q dvd N" and "0 < q" and "d' = d"
  using assms unfolding tryRecover_unfold try_roots_two
  by (auto split: if_splits)

lemma wienerAttack_divides:
  assumes "wienerAttack e N = Some (q, d)"
  shows "q dvd N" and "0 < q"
proof -
  obtain P Q where built: "buildConvergents (computeContinuedFraction e N) = (P, Q)"
    by (cases "buildConvergents (computeContinuedFraction e N)")
  have "wa_loop P Q e N 0 = Some (q, d)"
    using assms wienerAttack_is_loop [OF built] by simp
  then obtain i where "tryRecoverFromConvergent (P ! i) (Q ! i) e N = Some (q, d)"
    using wa_loop_SomeD by blast
  then show "q dvd N" and "0 < q"
    using tryRecover_divides by blast+
qed

lemma not_square_90581: "\<not> (\<exists>r. r * r = (90581::int))"
proof -
  have "\<not> fst (isPerfectSquare 90581 0)"
    by (simp add: isPerfectSquare_def ntl_eval)
  then show ?thesis
    using isPerfectSquare_iff [of 90581 0] by blast
qed

lemma wienerAttack_17993_90581: "wienerAttack 17993 90581 = Some (379, 5)"
  by (simp add: wienerAttack_def cf_17993_90581 convergents_17993_90581 wa_loop.simps
      tryRecover_17993_90581)

lemma wienerAttack_5_9: "wienerAttack 5 9 = Some (3, 1)"
  by (simp add: wienerAttack_def computeContinuedFraction_def cf_loop.simps
      buildConvergents_def bc_loop.simps wa_loop.simps
      tryRecoverFromConvergent_def isPerfectSquare_def Let_def ntl_eval)

lemma attack_5_9: "attack 5 9 = [0]"
  by (simp add: attack_def attack_loop_5_9)

lemma attack_17993_90581: "attack 17993 90581 = [239, 5]"
  by (simp add: attack_def attack_loop_17993_90581)

text \<open>
  Claim C2 says that \<^verbatim>\<open>attack\<close> of wiener.cpp and \<^verbatim>\<open>wienerAttack\<close> of wiener\_attack.cpp
  succeed on the same inputs and then return the same pair \<open>(q, d)\<close>. They do not: for
  \<open>e = 17993\<close>, \<open>N = 90581\<close> the first returns \<open>q = 239\<close> and the second \<open>q = 379\<close>, and for
  \<open>e = 5\<close>, \<open>N = 9\<close> the first fails where the second returns \<open>(3, 1)\<close>.
\<close>

theorem attack_differs_from_wienerAttack:
  "\<not> (attack 17993 90581 =
        (case wienerAttack 17993 90581 of None \<Rightarrow> [0] | Some (q, d) \<Rightarrow> [q, d])) \<and>
   \<not> (attack 5 9 = (case wienerAttack 5 9 of None \<Rightarrow> [0] | Some (q, d) \<Rightarrow> [q, d]))"
  by (simp add: attack_17993_90581 wienerAttack_17993_90581 attack_5_9 wienerAttack_5_9)


text \<open>
  Claim C2 as amended. For a positive \<open>N\<close> that is not a perfect square (as every modulus
  \<open>N = p q\<close> with \<open>p \<noteq> q\<close>) and every \<open>e\<close>, the two functions succeed on the same inputs
  with the same \<open>d\<close>, and \<^verbatim>\<open>attack\<close> returns the cofactor \<open>N / q\<close> of the factor \<open>q\<close> that
  \<^verbatim>\<open>wienerAttack\<close> returns.
\<close>

theorem attack_returns_cofactor:
  assumes "0 < N" and "\<not> (\<exists>r. r * r = N)"
  shows "attack e N = (case wienerAttack e N of None \<Rightarrow> [0] | Some (q, d) \<Rightarrow> [N div q, d]) \<and>
    (\<forall>q d. wienerAttack e N = Some (q, d) \<longrightarrow> q * (N div q) = N)"
proof -
  obtain P Q where built: "buildConvergents (computeContinuedFraction e N) = (P, Q)"
    by (cases "buildConvergents (computeContinuedFraction e N)")
  have loops: "attack_loop e N (computeContinuedFraction e N) 0 ([], []) 0 =
      map_option (\<lambda>(q, d'). [N div q, d']) (wa_loop P Q e N 0)"
    using attack_loop_matches_wa_loop [OF assms built, of 0 e 0] by simp
  have "attack e N =
      (case wa_loop P Q e N 0 of None \<Rightarrow> [0] | Some (q, d) \<Rightarrow> [N div q, d])"
    unfolding attack_def oblicz_eq_computeContinuedFraction loops
    by (simp split: option.splits)
  then have same: "attack e N =
      (case wienerAttack e N of None \<Rightarrow> [0] | Some (q, d) \<Rightarrow> [N div q, d])"
    using wienerAttack_is_loop [OF built] by simp
  have cofactor: "\<forall>q d. wienerAttack e N = Some (q, d) \<longrightarrow> q * (N div q) = N"
    using wienerAttack_divides(1) by (auto simp: dvd_mult_div_cancel)
  show ?thesis
    using same cofactor by (intro conjI)
qed

theorem attack_returns_cofactor_witness:
  "(0::int) < 90581 \<and> \<not> (\<exists>r. r * r = (90581::int)) \<and>
   wienerAttack 17993 90581 = Some (379, 5) \<and>
   attack 17993 90581 = [90581 div 379, 5] \<and> (379::int) * (90581 div 379) = 90581"
proof -
  have N: "(0::int) < 90581"
    by simp
  note both = attack_returns_cofactor [OF N not_square_90581, of 17993]
  have cofactor: "attack 17993 90581 = [90581 div 379, 5]"
    using both [THEN conjunct1] by (simp only: wienerAttack_17993_90581 option.case prod.case)
  have product: "(379::int) * (90581 div 379) = 90581"
    using both [THEN conjunct2, rule_format, OF wienerAttack_17993_90581] .
  show ?thesis
    using N not_square_90581 wienerAttack_17993_90581 cofactor product by (intro conjI)
qed

section \<open>Discriminants that are not squares\<close>

lemma isPerfectSquare_verdict:
  "fst (isPerfectSquare n root) \<longleftrightarrow> 0 \<le> n \<and> SqrRoot n * SqrRoot n = n"
  by (simp add: isPerfectSquare_def)

lemma tryRecover_rejects_non_square:
  assumes "\<not> (\<exists>r. r * r = discriminant N (phi_candidate k d e))"
  shows "tryRecoverFromConvergent k d e N = None"
proof -
  have "SqrRoot (discriminant N (phi_candidate k d e)) *
        SqrRoot (discriminant N (phi_candidate k d e)) \<noteq> discriminant N (phi_candidate k d e)"
    using assms by blast
  then show ?thesis
    unfolding tryRecover_unfold by simp
qed

text \<open>
  Claim C3. \<^verbatim>\<open>isPerfectSquare\<close> computes the integer square root \<open>r\<close> of its argument
  and answers whether \<open>r r\<close> is the argument, which is the case exactly for the squares of
  integers. Whenever the discriminant of a candidate is not such a square,
  \<^verbatim>\<open>tryRecoverFromConvergent\<close> returns no candidate. The test of wiener.cpp has no such
  check, and returns no candidate for such a discriminant all the same when \<open>N\<close> is positive:
  a root computed from the floor of an irrational square root does not divide \<open>N\<close>.
\<close>

theorem non_square_discriminant_rejected:
  "(fst (isPerfectSquare n root) \<longleftrightarrow> 0 \<le> n \<and> SqrRoot n * SqrRoot n = n) \<and>
   (fst (isPerfectSquare n root) \<longleftrightarrow> (\<exists>r. r * r = n)) \<and>
   (\<not> (\<exists>r. r * r = discriminant N (phi_candidate k d e)) \<longrightarrow>
      tryRecoverFromConvergent k d e N = None) \<and>
   (0 < N \<and> \<not> (\<exists>r. r * r = discriminant N (phi_candidate k d e)) \<longrightarrow>
      fst (attack_check k d e N p1) = None)"
  using isPerfectSquare_verdict [of n root] isPerfectSquare_iff [of n root]
    tryRecover_rejects_non_square [of N k d e]
    attack_check_rejects_non_square [of N k d e p1]
  by blast

lemma discriminant_17993_90583:
  "discriminant 90583 (phi_candidate 1 5 17993) = 22068"
  by (simp add: discriminant_def coefficient_b_def phi_candidate_def)

lemma not_square_22068: "\<not> (\<exists>r. r * r = (22068::int))"
proof -
  have "\<not> fst (isPerfectSquare 22068 0)"
    by (simp add: isPerfectSquare_def ntl_eval)
  then show ?thesis
    using isPerfectSquare_iff [of 22068 0] by blast
qed

theorem non_square_discriminant_rejected_witness:
  "(0::int) < 90583 \<and>
   \<not> (\<exists>r. r * r = discriminant 90583 (phi_candidate 1 5 17993)) \<and>
   \<not> fst (isPerfectSquare (discriminant 90583 (phi_candidate 1 5 17993)) 0) \<and>
   tryRecoverFromConvergent 1 5 17993 90583 = None \<and>
   fst (attack_check 1 5 17993 90583 0) = None"
proof -
  have N: "(0::int) < 90583"
    by simp
  have non_square: "\<not> (\<exists>r. r * r = discriminant 90583 (phi_candidate 1 5 17993))"
    unfolding discriminant_17993_90583 by (rule not_square_22068)
  note rejected = non_square_discriminant_rejected
    [of "discriminant 90583 (phi_candidate 1 5 17993)" 0 90583 1 5 17993 0]
  have verdict: "\<not> fst (isPerfectSquare (discriminant 90583 (phi_candidate 1 5 17993)) 0)"
    using rejected [THEN conjunct2, THEN conjunct1] non_square by blast
  have recover: "tryRecoverFromConvergent 1 5 17993 90583 = None"
    using rejected [THEN conjunct2, THEN conjunct2, THEN conjunct1] non_square by blast
  have check: "fst (attack_check 1 5 17993 90583 0) = None"
    using rejected [THEN conjunct2, THEN conjunct2, THEN conjunct2] non_square N by blast
  show ?thesis
    using N non_square verdict recover check by (intro conjI)
qed


section \<open>The order of the two roots\<close>

text \<open>
  Claim C4 says that the first root that passes the three tests is accepted as the factor
  \<open>q\<close>. In \<^verbatim>\<open>attack\<close> of wiener.cpp it is not: for \<open>k = 1\<close>, \<open>d = 5\<close>, \<open>e = 17993\<close>,
  \<open>N = 90581\<close> the discriminant is \<open>140\<^sup>2\<close>, the first root \<open>758 / 2 = 379\<close> passes the three
  tests and is what \<^verbatim>\<open>tryRecoverFromConvergent\<close> returns, and \<^verbatim>\<open>attack\<close> returns
  \<open>q = N / 379 = 239\<close>.
\<close>

theorem attack_check_keeps_cofactor:
  "discriminant 90581 (phi_candidate 1 5 17993) = 140 * 140 \<and>
   SqrRoot (discriminant 90581 (phi_candidate 1 5 17993)) = 140 \<and>
   - coefficient_b 90581 (phi_candidate 1 5 17993) + 140 = 758 \<and>
   (2::int) dvd 758 \<and> (0::int) < 758 div 2 \<and> (758::int) div 2 dvd 90581 \<and> (758::int) div 2 = 379 \<and>
   tryRecoverFromConvergent 1 5 17993 90581 = Some (379, 5) \<and>
   fst (attack_check 1 5 17993 90581 0) = Some [239, 5] \<and>
   fst (attack_check 1 5 17993 90581 0) \<noteq> Some [379, 5]"
proof -
  have D: "discriminant 90581 (phi_candidate 1 5 17993) = 140 * 140"
    and b: "- coefficient_b 90581 (phi_candidate 1 5 17993) + 140 = 758"
    by (simp_all add: discriminant_def coefficient_b_def phi_candidate_def)
  have root: "SqrRoot (discriminant 90581 (phi_candidate 1 5 17993)) = 140"
    unfolding D by (simp add: ntl_eval)
  have tests: "(2::int) dvd 758" "(0::int) < 758 div 2" "(758::int) div 2 dvd 90581"
    "(758::int) div 2 = 379"
    by simp_all
  have check: "fst (attack_check 1 5 17993 90581 0) = Some [239, 5]"
    by (simp add: attack_check_def Let_def ntl_eval)
  then have differs: "fst (attack_check 1 5 17993 90581 0) \<noteq> Some [379, 5]"
    by simp
  show ?thesis
    using D root b tests tryRecover_17993_90581(2) check differs by (intro conjI)
qed

text \<open>
  Claim C4 as amended. In \<^verbatim>\<open>tryRecoverFromConvergent\<close>, for a candidate that passes the
  divisibility test and has a non-negative perfect-square discriminant with root \<open>r\<close>, the
  numerators \<open>- b + r\<close> and \<open>- b - r\<close> are tried in that order, each for divisibility by
  \<open>2 a = 2\<close>, positivity of the quotient and divisibility of \<open>N\<close> by the quotient; the first
  quotient to pass all three is returned as \<open>q\<close>, and the second numerator is tried whenever
  the first fails a test. In \<^verbatim>\<open>attack\<close> of wiener.cpp, for a positive discriminant, only
  the numerator \<open>- b + r\<close> can be accepted, on the same three tests, and what is returned as
  \<open>q\<close> is then \<open>N\<close> divided by its quotient.
\<close>

theorem roots_tried_in_order:
  assumes "k \<noteq> 0" and "k dvd e * d - 1"
    and "b = coefficient_b N (phi_candidate k d e)"
    and "r = SqrRoot (discriminant N (phi_candidate k d e))"
  shows "(0 \<le> discriminant N (phi_candidate k d e) \<and>
          r * r = discriminant N (phi_candidate k d e) \<longrightarrow>
          tryRecoverFromConvergent k d e N =
            (if 2 dvd (- b + r) \<and> 0 < (- b + r) div 2 \<and> (- b + r) div 2 dvd N
             then Some ((- b + r) div 2, d)
             else if 2 dvd (- b - r) \<and> 0 < (- b - r) div 2 \<and> (- b - r) div 2 dvd N
             then Some ((- b - r) div 2, d)
             else None)) \<and>
         (0 < discriminant N (phi_candidate k d e) \<longrightarrow>
          fst (attack_check k d e N p1) =
            (if 2 dvd (- b + r) \<and> 0 < (- b + r) div 2 \<and> (- b + r) div 2 dvd N
             then Some [N div ((- b + r) div 2), d]
             else None))"
proof (intro conjI impI)
  assume "0 \<le> discriminant N (phi_candidate k d e) \<and>
      r * r = discriminant N (phi_candidate k d e)"
  then show "tryRecoverFromConvergent k d e N =
      (if 2 dvd (- b + r) \<and> 0 < (- b + r) div 2 \<and> (- b + r) div 2 dvd N
       then Some ((- b + r) div 2, d)
       else if 2 dvd (- b - r) \<and> 0 < (- b - r) div 2 \<and> (- b - r) div 2 dvd N
       then Some ((- b - r) div 2, d)
       else None)"
    unfolding tryRecover_unfold try_roots_two assms(3,4)
    using assms(1,2) by (simp add: assms(4) [symmetric])
next
  assume pos: "0 < discriminant N (phi_candidate k d e)"
  have parity: "2 dvd - b - r \<longleftrightarrow> 2 dvd - b + r"
    by (rule root_parity)
  define r1 where "r1 = - b + r"
  define r2 where "r2 = - b - r"
  have "fst (attack_check k d e N p1) =
     (if 2 dvd r1 then
        (if 0 < r1 div 2 \<and> r1 div 2 dvd N then Some [N div (r1 div 2), d] else None)
      else if 2 dvd r2 then
        (if 0 < r2 div 2 \<and> r2 div 2 dvd N then Some [N div (r2 div 2), d] else None)
      else None)"
    unfolding attack_check_unfold r1_def r2_def assms(3,4)
    using assms(1,2) pos by simp
  then show "fst (attack_check k d e N p1) =
      (if 2 dvd (- b + r) \<and> 0 < (- b + r) div 2 \<and> (- b + r) div 2 dvd N
       then Some [N div ((- b + r) div 2), d]
       else None)"
    using parity unfolding r1_def [symmetric] r2_def [symmetric] by simp
qed


theorem roots_tried_in_order_witness:
  "(1::int) \<noteq> 0 \<and> (1::int) dvd 17993 * 5 - 1 \<and>
   - 618 = coefficient_b 90581 (phi_candidate 1 5 17993) \<and>
   140 = SqrRoot (discriminant 90581 (phi_candidate 1 5 17993)) \<and>
   0 \<le> discriminant 90581 (phi_candidate 1 5 17993) \<and>
   140 * 140 = discriminant 90581 (phi_candidate 1 5 17993) \<and>
   tryRecoverFromConvergent 1 5 17993 90581 = Some (379, 5) \<and>
   fst (attack_check 1 5 17993 90581 0) = Some [239, 5]"
proof -
  have k: "(1::int) \<noteq> 0" "(1::int) dvd 17993 * 5 - 1"
    by simp_all
  have b: "- 618 = coefficient_b 90581 (phi_candidate 1 5 17993)"
    by (simp add: coefficient_b_def phi_candidate_def)
  have D: "discriminant 90581 (phi_candidate 1 5 17993) = 19600"
    by (simp add: discriminant_def coefficient_b_def phi_candidate_def)
  have r: "140 = SqrRoot (discriminant 90581 (phi_candidate 1 5 17993))"
    unfolding D by (simp add: ntl_eval)
  have square: "0 \<le> discriminant 90581 (phi_candidate 1 5 17993) \<and>
      140 * 140 = discriminant 90581 (phi_candidate 1 5 17993)"
    unfolding D by simp
  have positive: "0 < discriminant 90581 (phi_candidate 1 5 17993)"
    unfolding D by simp
  note order = roots_tried_in_order [OF k b r, of 0]
  have recover: "tryRecoverFromConvergent 1 5 17993 90581 = Some (379, 5)"
    using order [THEN conjunct1, rule_format, OF square] by simp
  have check: "fst (attack_check 1 5 17993 90581 0) = Some [239, 5]"
    using order [THEN conjunct2, rule_format, OF positive] by simp
  show ?thesis
    using k b r square [THEN conjunct1] square [THEN conjunct2] recover check by (intro conjI)
qed

section \<open>The final verification of wiener\_attack.cpp\<close>

text \<open>
  An accepted \<open>q\<close> is a root of \<open>x\<^sup>2 + b x + N\<close>, so that \<open>N / q\<close> is the other root and
  \<open>(N / q - 1) (q - 1)\<close> is the candidate \<open>phiN\<close> that the convergent gave.
\<close>

lemma tryRecover_sound:
  assumes "tryRecoverFromConvergent k d e N = Some (q, d')"
  shows "k \<noteq> 0" and "k dvd e * d - 1" and "d' = d" and "0 < q" and "q dvd N"
    and "q * q + coefficient_b N (phi_candidate k d e) * q + N = 0"
proof -
  define b where "b = coefficient_b N (phi_candidate k d e)"
  define D where "D = discriminant N (phi_candidate k d e)"
  define s where "s = SqrRoot D"
  define r1 where "r1 = - b + s"
  define r2 where "r2 = - b - s"
  have recover: "tryRecoverFromConvergent k d e N =
     (if k = 0 \<or> \<not> k dvd e * d - 1 then None
      else if D < 0 \<or> s * s \<noteq> D then None
      else if 2 dvd r1 \<and> 0 < r1 div 2 \<and> r1 div 2 dvd N then Some (r1 div 2, d)
      else if 2 dvd r2 \<and> 0 < r2 div 2 \<and> r2 div 2 dvd N then Some (r2 div 2, d)
      else None)"
    unfolding r1_def r2_def s_def D_def b_def tryRecover_unfold try_roots_two by (rule refl)
  have D: "D = b * b - 4 * N"
    by (simp add: D_def b_def discriminant_def)
  show "k \<noteq> 0" and "k dvd e * d - 1" and "d' = d" and "0 < q" and "q dvd N"
    using assms unfolding recover by (auto split: if_splits)
  have exact: "s * s = D"
    using assms unfolding recover by (auto split: if_splits)
  have "2 * q = r1 \<or> 2 * q = r2"
    using assms unfolding recover by (auto split: if_splits)
  then have "(2 * q + b) * (2 * q + b) = s * s"
    unfolding r1_def r2_def by auto
  then have "(2 * q + b) * (2 * q + b) = b * b - 4 * N"
    using exact D by simp
  then have "4 * (q * q + b * q + N) = 0"
    by (simp add: algebra_simps)
  then show "q * q + coefficient_b N (phi_candidate k d e) * q + N = 0"
    unfolding b_def by simp
qed

lemma tryRecover_totient:
  assumes "tryRecoverFromConvergent k d e N = Some (q, d')"
  shows "(N div q - 1) * (q - 1) = phi_candidate k d e"
    and "k * phi_candidate k d e = e * d - 1"
proof -
  note sound = tryRecover_sound [OF assms]
  define phi where "phi = phi_candidate k d e"
  have root: "q * q - (N - phi + 1) * q + N = 0"
    using sound(6) by (simp add: coefficient_b_def phi_def algebra_simps)
  have "N = (N - phi + 1 - q) * q"
    using root by (simp add: algebra_simps)
  then have "N div q = N - phi + 1 - q"
    using sound(4) by (metis less_irrefl nonzero_mult_div_cancel_right)
  then have "(N div q - 1) * (q - 1) = (N - phi - q) * (q - 1)"
    by simp
  also have "\<dots> = (N - phi + 1 - q) * q - N + phi"
    by (simp add: algebra_simps)
  also have "\<dots> = phi"
    using \<open>N = (N - phi + 1 - q) * q\<close> by simp
  finally show "(N div q - 1) * (q - 1) = phi_candidate k d e"
    unfolding phi_def .
  show "k * phi_candidate k d e = e * d - 1"
    using sound(2) by (simp add: phi_candidate_def)
qed

lemma wienerAttack_exponent_one:
  assumes "1 < N"
  shows "wienerAttack 1 N = None"
proof -
  have small: "(1::int) div N = 0"
    using assms by simp
  have "computeContinuedFraction 1 N = 0 # computeContinuedFraction N 1"
    using assms computeContinuedFraction_step [of N 1] by (simp add: small)
  also have "computeContinuedFraction N 1 = N # computeContinuedFraction 1 0"
    using computeContinuedFraction_step [of 1 N] by simp
  finally have terms: "computeContinuedFraction 1 N = [0, N]"
    by (simp add: computeContinuedFraction_zero)
  have built: "buildConvergents [0, N] = ([0, 1], [1, N])"
    by (simp add: buildConvergents_def bc_loop.simps)
  have first: "tryRecoverFromConvergent 0 1 1 N = None"
    by (simp add: tryRecover_unfold)
  have "discriminant N (phi_candidate 1 N 1) = 4 - 4 * N"
    by (simp add: discriminant_def coefficient_b_def phi_candidate_def)
  then have second: "tryRecoverFromConvergent 1 N 1 N = None"
    using assms by (simp add: tryRecover_unfold)
  show ?thesis
    by (simp add: wienerAttack_def terms built wa_loop.simps first second)
qed

lemma convergents_modulus_four:
  assumes e: "0 < e" and built: "buildConvergents (computeContinuedFraction e 4) = (P, Q)"
    and i: "i < length P" and k: "P ! i \<noteq> 0"
  shows "e * Q ! i - 1 \<noteq> P ! i"
proof -
  define a where "a = e div 4"
  define r where "r = e mod 4"
  have split: "e = 4 * a + r"
    by (simp add: a_def r_def)
  have rest: "e - (e div 4) * 4 = r"
    by (simp add: r_def minus_div_mult_eq_mod)
  have terms: "computeContinuedFraction e 4 = a # computeContinuedFraction 4 r"
    using computeContinuedFraction_step [of 4 e] by (simp add: rest a_def)
  have "0 \<le> r" and "r < 4"
    by (simp_all add: r_def)
  then consider "r = 0" | "r = 1" | "r = 2" | "r = 3"
    by fastforce
  then show ?thesis
  proof cases
    case 1
    have "computeContinuedFraction e 4 = [a]"
      unfolding terms 1 by (simp add: computeContinuedFraction_zero)
    then have "P = [a] \<and> Q = [1]"
      using built by (simp add: buildConvergents_def bc_loop.simps)
    then show ?thesis
      using i split 1 by (auto; presburger)
  next
    case 2
    have "computeContinuedFraction 4 1 = [4]"
      by (simp add: computeContinuedFraction_def cf_loop.simps IsZero_def)
    then have "computeContinuedFraction e 4 = [a, 4]"
      unfolding terms 2 by simp
    then have PQ: "P = [a, 4 * a + 1] \<and> Q = [1, 4]"
      using built by (simp add: buildConvergents_def bc_loop.simps)
    then have "i = 0 \<or> i = 1"
      using i by auto
    then show ?thesis
      using PQ split 2 k by (auto; presburger)
  next
    case 3
    have "computeContinuedFraction 4 2 = [2]"
      by (simp add: computeContinuedFraction_def cf_loop.simps IsZero_def)
    then have "computeContinuedFraction e 4 = [a, 2]"
      unfolding terms 3 by simp
    then have PQ: "P = [a, 2 * a + 1] \<and> Q = [1, 2]"
      using built by (simp add: buildConvergents_def bc_loop.simps)
    then have "i = 0 \<or> i = 1"
      using i by auto
    then show ?thesis
      using PQ split 3 k by (auto; presburger)
  next
    case 4
    have "computeContinuedFraction 4 3 = [1, 3]"
      by (simp add: computeContinuedFraction_def cf_loop.simps IsZero_def)
    then have "computeContinuedFraction e 4 = [a, 1, 3]"
      unfolding terms 4 by simp
    then have PQ: "P = [a, a + 1, 3 * (a + 1) + a] \<and> Q = [1, 1, 4]"
      using built by (simp add: buildConvergents_def bc_loop.simps)
    then have "i = 0 \<or> i = 1 \<or> i = 2"
      using i by auto
    then show ?thesis
      using PQ split 4 k by (auto; presburger)
  qed
qed


lemma one_mod_totient:
  fixes k phi :: int
  assumes "2 \<le> phi"
  shows "(k * phi + 1) mod phi = 1"
proof -
  have "(k * phi + 1) mod phi = 1 mod phi"
    by simp
  also have "\<dots> = 1"
    using assms by simp
  finally show ?thesis .
qed

lemma verification_passes:
  assumes e: "0 < e" and N: "0 < N" and not_one: "e \<noteq> 1 \<or> N \<noteq> 1"
    and found: "wienerAttack e N = Some (q, d)"
  shows "(N div q) * q = N"
    and "MulMod e d ((N div q - 1) * (q - 1)) = Inr 1"
    and "main_wiener_attack e N = Returned 0"
proof -
  obtain P Q where built: "buildConvergents (computeContinuedFraction e N) = (P, Q)"
    by (cases "buildConvergents (computeContinuedFraction e N)")
  have "wa_loop P Q e N 0 = Some (q, d)"
    using found wienerAttack_is_loop [OF built] by simp
  then obtain i where i: "i < length P"
    and recovered: "tryRecoverFromConvergent (P ! i) (Q ! i) e N = Some (q, d)"
    using wa_loop_SomeD by blast
  define k where "k = P ! i"
  define phi where "phi = phi_candidate k (Q ! i) e"
  note sound = tryRecover_sound [OF recovered]
  have d: "d = Q ! i"
    using sound(3) .
  have k0: "k \<noteq> 0"
    using sound(1) by (simp add: k_def)
  have q: "0 < q" "q dvd N"
    using sound(4,5) .
  have totient: "(N div q - 1) * (q - 1) = phi"
    using tryRecover_totient(1) [OF recovered] by (simp add: phi_def k_def)
  have key: "k * phi = e * d - 1"
    using tryRecover_totient(2) [OF recovered] by (simp add: phi_def k_def d)
  show product: "(N div q) * q = N"
    using q(2) by simp
  have p: "1 \<le> N div q"
  proof (rule ccontr)
    assume "\<not> 1 \<le> N div q"
    then have "N div q \<le> 0" by simp
    then have "(N div q) * q \<le> 0"
      using q(1) by (simp add: mult_le_0_iff)
    then show False using product N by simp
  qed
  have phi0: "0 \<le> phi"
    using p q(1) totient [symmetric] by simp
  have "phi \<noteq> 0"
  proof
    assume "phi = 0"
    then have "e * d = 1"
      using key by simp
    then have "e = 1"
      using e by (simp add: pos_zmult_eq_1_iff)
    then have "1 < N" and "wienerAttack 1 N = Some (q, d)"
      using not_one N found by simp_all
    then show False
      using wienerAttack_exponent_one [of N] by simp
  qed
  moreover have "phi \<noteq> 1"
  proof
    assume "phi = 1"
    then have "(N div q - 1) * (q - 1) = 1"
      using totient by simp
    then have "N div q - 1 = 1 \<and> q - 1 = 1"
      using p q(1) by (auto simp add: zmult_eq_1_iff)
    then have two: "N div q = 2" "q = 2"
      by auto
    have "N = 4"
      using product unfolding two(1) using two(2) by simp
    moreover have "e * Q ! i - 1 = P ! i"
      using key \<open>phi = 1\<close> by (simp add: d k_def)
    ultimately show False
      using convergents_modulus_four [OF e _ i] built k0 by (simp add: k_def)
  qed
  ultimately have phi2: "2 \<le> phi"
    using phi0 by simp
  have "(e * d) mod phi = (k * phi + 1) mod phi"
    using key by simp
  then have check: "(e * d) mod phi = 1"
    using one_mod_totient [OF phi2] by simp
  show verified: "MulMod e d ((N div q - 1) * (q - 1)) = Inr 1"
    unfolding totient using check phi2 by (simp add: MulMod_def)
  have "d \<noteq> 0"
  proof
    assume "d = 0"
    then have "k * phi = - 1"
      using key by simp
    then have "phi dvd - 1"
      by (metis dvd_triv_right)
    then have "phi dvd 1"
      by simp
    then show False
      using phi2 by (simp add: zdvd1_eq)
  qed
  then show "main_wiener_attack e N = Returned 0"
    using e N found q verified
    by (simp add: main_wiener_attack_def divide_zz_def Let_def)
qed

lemma verification_passes_17993_90581:
  "(90581 div 379) * 379 = (90581::int) \<and>
   MulMod 17993 5 ((90581 div 379 - 1) * (379 - 1)) = Inr 1 \<and>
   main_wiener_attack 17993 90581 = Returned 0"
  using verification_passes [of 17993 90581 379 5] wienerAttack_17993_90581 by simp

lemma wienerAttack_1_1: "wienerAttack 1 1 = Some (1, 1)"
  by (simp add: wienerAttack_def computeContinuedFraction_def cf_loop.simps
      buildConvergents_def bc_loop.simps wa_loop.simps
      tryRecoverFromConvergent_def isPerfectSquare_def Let_def ntl_eval)

text \<open>
  Claim C1 says that for all positive \<open>e\<close> and \<open>N\<close> a pair \<open>(q, d)\<close> returned by the attack
  satisfies \<open>p q = N\<close> and \<open>e d mod (p - 1) (q - 1) = 1\<close> for \<open>p = N / q\<close>, so that the final
  check of the driver never fails. By \<open>verification_passes\<close> this holds for all positive
  \<open>e\<close> and \<open>N\<close> but \<open>e = N = 1\<close>. There \<^verbatim>\<open>wienerAttack\<close> returns \<open>(1, 1)\<close>, the modulus
  \<open>(p - 1) (q - 1)\<close> of the check is \<open>0\<close>, and \<^verbatim>\<open>MulMod\<close> raises NTL's division-by-zero
  error: the driver ends in that error, not with one of its exit codes.
\<close>

theorem verification_divides_by_zero:
  "wienerAttack 1 1 = Some (1, 1) \<and>
   MulMod 1 1 ((1 div 1 - 1) * (1 - 1)) = Inl DivisionByZero \<and>
   main_wiener_attack 1 1 = Raised DivisionByZero"
  by (simp add: wienerAttack_1_1 MulMod_def main_wiener_attack_def divide_zz_def)


section \<open>The key with e = N\<close>

lemma equal_key_fails:
  assumes "2 \<le> N"
  shows "computeContinuedFraction N N = [1]"
    and "wienerAttack N N = None"
    and "main_wiener_attack N N = Returned 3"
proof -
  have N0: "N \<noteq> 0"
    using assms by simp
  have "computeContinuedFraction N N = 1 # computeContinuedFraction N 0"
    using computeContinuedFraction_step [OF N0, of N] N0 by simp
  then show terms: "computeContinuedFraction N N = [1]"
    by (simp add: computeContinuedFraction_zero)
  have built: "buildConvergents [1] = ([1], [1])"
    by (simp add: buildConvergents_def bc_loop.simps)
  have "discriminant N (phi_candidate 1 1 N) = 4 - 4 * N"
    by (simp add: discriminant_def coefficient_b_def phi_candidate_def)
  then have "tryRecoverFromConvergent 1 1 N N = None"
    using assms by (simp add: tryRecover_unfold)
  then show failed: "wienerAttack N N = None"
    by (simp add: wienerAttack_def terms built wa_loop.simps)
  show "main_wiener_attack N N = Returned 3"
    using assms by (simp add: main_wiener_attack_def failed)
qed

lemma equal_key_fails_90581:
  "computeContinuedFraction 90581 90581 = [1] \<and> wienerAttack 90581 90581 = None \<and>
   main_wiener_attack 90581 90581 = Returned 3"
  using equal_key_fails [of 90581] by simp

text \<open>
  Claim C8 says that for every positive \<open>N\<close> the input \<open>e = N\<close> has the expansion \<open>[1]\<close> and
  the attack reports failure without a division by zero. By \<open>equal_key_fails\<close> this holds
  for every \<open>N \<ge> 2\<close>. For \<open>N = 1\<close> the expansion is \<open>[1]\<close>, but \<^verbatim>\<open>wienerAttack\<close> succeeds
  with \<open>(1, 1)\<close> and the driver then reduces modulo \<open>0\<close>: it ends in NTL's division-by-zero
  error and not with the exit code \<open>3\<close> of a failed attack.
\<close>

theorem equal_key_one_succeeds:
  "computeContinuedFraction 1 1 = [1] \<and> wienerAttack 1 1 \<noteq> None \<and>
   main_wiener_attack 1 1 \<noteq> Returned 3 \<and> main_wiener_attack 1 1 = Raised DivisionByZero"
  by (simp add: wienerAttack_1_1 MulMod_def main_wiener_attack_def divide_zz_def
      computeContinuedFraction_def cf_loop.simps IsZero_def)

section \<open>The first convergent that succeeds\<close>

lemma attack_loop_step:
  assumes built: "buildConvergents w = (P, Q)" and in_range: "i < length w"
  shows "attack_loop e N w i (take i P, take i Q) (attack_p1 e N P Q i) =
    (case fst (attack_check (P ! i) (Q ! i) e N (attack_p1 e N P Q i)) of
       Some wynik \<Rightarrow> Some wynik
     | None \<Rightarrow> attack_loop e N w (Suc i) (take (Suc i) P, take (Suc i) Q)
                 (attack_p1 e N P Q (Suc i)))"
proof -
  have iP: "i < length P" and iQ: "i < length Q"
    using buildConvergents_index [OF built] in_range by simp_all
  have push: "attack_push w i (take i P, take i Q) = (take (Suc i) P, take (Suc i) Q)"
    using built in_range by (rule attack_push_take)
  obtain res p1' where check:
    "attack_check (P ! i) (Q ! i) e N (attack_p1 e N P Q i) = (res, p1')"
    by (cases "attack_check (P ! i) (Q ! i) e N (attack_p1 e N P Q i)")
  show ?thesis
    using in_range check
    by (subst attack_loop.simps) (simp add: push split: option.splits)
qed

lemma attack_loop_SomeD:
  assumes built: "buildConvergents w = (P, Q)"
  shows "i \<le> length w \<Longrightarrow>
    attack_loop e N w i (take i P, take i Q) (attack_p1 e N P Q i) = Some wynik \<Longrightarrow>
    \<exists>i'. i \<le> i' \<and> i' < length w \<and>
      fst (attack_check (P ! i') (Q ! i') e N (attack_p1 e N P Q i')) = Some wynik \<and>
      (\<forall>j. i \<le> j \<and> j < i' \<longrightarrow>
         fst (attack_check (P ! j) (Q ! j) e N (attack_p1 e N P Q j)) = None)"
proof (induction "length w - i" arbitrary: i)
  case 0
  then have "\<not> i < length w" by simp
  then have "attack_loop e N w i (take i P, take i Q) (attack_p1 e N P Q i) = None"
    by (subst attack_loop.simps) simp
  then show ?case using "0.prems" by simp
next
  case (Suc n)
  then have in_range: "i < length w" by simp
  note step = attack_loop_step [OF built in_range, of e N]
  show ?case
  proof (cases "fst (attack_check (P ! i) (Q ! i) e N (attack_p1 e N P Q i))")
    case (Some res)
    then have "res = wynik"
      using Suc.prems(2) step by simp
    then show ?thesis
      using Some in_range by (intro exI [of _ i]) auto
  next
    case None
    then have "attack_loop e N w (Suc i) (take (Suc i) P, take (Suc i) Q)
        (attack_p1 e N P Q (Suc i)) = Some wynik"
      using Suc.prems(2) step by simp
    moreover have "n = length w - Suc i" and "Suc i \<le> length w"
      using Suc.hyps(2) in_range by simp_all
    ultimately obtain i' where i': "Suc i \<le> i'" "i' < length w"
        "fst (attack_check (P ! i') (Q ! i') e N (attack_p1 e N P Q i')) = Some wynik"
        "\<forall>j. Suc i \<le> j \<and> j < i' \<longrightarrow>
           fst (attack_check (P ! j) (Q ! j) e N (attack_p1 e N P Q j)) = None"
      using Suc.hyps(1) [of "Suc i"] by blast
    have "fst (attack_check (P ! j) (Q ! j) e N (attack_p1 e N P Q j)) = None"
      if "i \<le> j \<and> j < i'" for j
    proof (cases "j = i")
      case True
      then show ?thesis using None by simp
    next
      case False
      then show ?thesis using i'(4) that by simp
    qed
    then show ?thesis
      using i'(1-3) by (intro exI [of _ i']) auto
  qed
qed

lemma attack_loop_SomeI:
  assumes built: "buildConvergents w = (P, Q)"
  shows "i \<le> i' \<Longrightarrow> i' < length w \<Longrightarrow>
    fst (attack_check (P ! i') (Q ! i') e N (attack_p1 e N P Q i')) = Some wynik \<Longrightarrow>
    (\<forall>j. i \<le> j \<and> j < i' \<longrightarrow>
       fst (attack_check (P ! j) (Q ! j) e N (attack_p1 e N P Q j)) = None) \<Longrightarrow>
    attack_loop e N w i (take i P, take i Q) (attack_p1 e N P Q i) = Some wynik"
proof (induction "i' - i" arbitrary: i)
  case 0
  then have "i = i'" by simp
  then show ?case
    using "0.prems" attack_loop_step [OF built, of i' e N] by simp
next
  case (Suc n)
  then have less: "i < i'" by simp
  then have in_range: "i < length w"
    using Suc.prems(2) by simp
  have here: "fst (attack_check (P ! i) (Q ! i) e N (attack_p1 e N P Q i)) = None"
    using Suc.prems(4) less by simp
  have "attack_loop e N w (Suc i) (take (Suc i) P, take (Suc i) Q)
      (attack_p1 e N P Q (Suc i)) = Some wynik"
  proof (rule Suc.hyps(1))
    show "n = i' - Suc i" using Suc.hyps(2) by simp
    show "Suc i \<le> i'" using less by simp
    show "i' < length w" by (rule Suc.prems(2))
    show "fst (attack_check (P ! i') (Q ! i') e N (attack_p1 e N P Q i')) = Some wynik"
      by (rule Suc.prems(3))
    show "\<forall>j. Suc i \<le> j \<and> j < i' \<longrightarrow>
        fst (attack_check (P ! j) (Q ! j) e N (attack_p1 e N P Q j)) = None"
      using Suc.prems(4) by simp
  qed
  then show ?case
    using here attack_loop_step [OF built in_range, of e N] by simp
qed

lemma buildConvergents_prefix:
  assumes full: "buildConvergents w = (P, Q)"
    and part: "buildConvergents (take n w @ w') = (P', Q')"
  shows "j < n \<Longrightarrow> j < length w \<Longrightarrow> P' ! j = P ! j \<and> Q' ! j = Q ! j"
proof (induction j rule: less_induct)
  case (less j)
  have same: "(take n w @ w') ! m = w ! m" if "m \<le> j" for m
    using that less.prems by (simp add: nth_append)
  have in_part: "j < length (take n w @ w')"
    using less.prems by simp
  note at_full = buildConvergents_index [OF full, THEN conjunct2, THEN conjunct2, rule_format,
      OF less.prems(2)]
  note at_part = buildConvergents_index [OF part, THEN conjunct2, THEN conjunct2, rule_format,
      OF in_part]
  show ?case
  proof (cases "j = 0")
    case True
    then show ?thesis
      using at_full at_part same [of 0] by simp
  next
    case False
    note j0 = False
    show ?thesis
    proof (cases "j = 1")
      case True
      then show ?thesis
        using at_full at_part same [of 0] same [of 1] by simp
    next
      case False
      have "P' ! (j - 1) = P ! (j - 1) \<and> Q' ! (j - 1) = Q ! (j - 1)"
        using j0 less.prems by (intro less.IH) simp_all
      moreover have "P' ! (j - 2) = P ! (j - 2) \<and> Q' ! (j - 2) = Q ! (j - 2)"
        using j0 less.prems by (intro less.IH) simp_all
      ultimately show ?thesis
        using at_full at_part same [of j] j0 False by simp
    qed
  qed
qed

lemma attack_p1_prefix:
  assumes "\<forall>j<i. P' ! j = P ! j \<and> Q' ! j = Q ! j"
  shows "m \<le> i \<Longrightarrow> attack_p1 e N P' Q' m = attack_p1 e N P Q m"
  using assms by (induction m) simp_all


lemma attack_loop_first_match:
  assumes built: "buildConvergents w = (P, Q)"
  shows "attack_loop e N w 0 ([], []) 0 = Some wynik \<longleftrightarrow>
    (\<exists>i. i < length P \<and>
       fst (attack_check (P ! i) (Q ! i) e N (attack_p1 e N P Q i)) = Some wynik \<and>
       (\<forall>j<i. fst (attack_check (P ! j) (Q ! j) e N (attack_p1 e N P Q j)) = None))"
proof
  assume "attack_loop e N w 0 ([], []) 0 = Some wynik"
  then have "attack_loop e N w 0 (take 0 P, take 0 Q) (attack_p1 e N P Q 0) = Some wynik"
    by simp
  from attack_loop_SomeD [OF built _ this]
  obtain i where "i < length w"
      "fst (attack_check (P ! i) (Q ! i) e N (attack_p1 e N P Q i)) = Some wynik"
      "\<forall>j. 0 \<le> j \<and> j < i \<longrightarrow>
         fst (attack_check (P ! j) (Q ! j) e N (attack_p1 e N P Q j)) = None"
    by auto
  then show "\<exists>i. i < length P \<and>
       fst (attack_check (P ! i) (Q ! i) e N (attack_p1 e N P Q i)) = Some wynik \<and>
       (\<forall>j<i. fst (attack_check (P ! j) (Q ! j) e N (attack_p1 e N P Q j)) = None)"
    using buildConvergents_index [OF built] by (intro exI [of _ i]) simp
next
  assume "\<exists>i. i < length P \<and>
       fst (attack_check (P ! i) (Q ! i) e N (attack_p1 e N P Q i)) = Some wynik \<and>
       (\<forall>j<i. fst (attack_check (P ! j) (Q ! j) e N (attack_p1 e N P Q j)) = None)"
  then obtain i where i: "i < length P"
      "fst (attack_check (P ! i) (Q ! i) e N (attack_p1 e N P Q i)) = Some wynik"
      "\<forall>j<i. fst (attack_check (P ! j) (Q ! j) e N (attack_p1 e N P Q j)) = None"
    by blast
  have "attack_loop e N w 0 (take 0 P, take 0 Q) (attack_p1 e N P Q 0) = Some wynik"
  proof (rule attack_loop_SomeI [OF built, where i' = i])
    show "0 \<le> i" by simp
    show "i < length w" using i(1) buildConvergents_index [OF built] by simp
    show "fst (attack_check (P ! i) (Q ! i) e N (attack_p1 e N P Q i)) = Some wynik"
      by (rule i(2))
    show "\<forall>j. 0 \<le> j \<and> j < i \<longrightarrow>
        fst (attack_check (P ! j) (Q ! j) e N (attack_p1 e N P Q j)) = None"
      using i(3) by simp
  qed
  then show "attack_loop e N w 0 ([], []) 0 = Some wynik"
    by simp
qed

lemma attack_loop_prefix:
  assumes built: "buildConvergents w = (P, Q)" and i: "i < length P"
    and found: "fst (attack_check (P ! i) (Q ! i) e N (attack_p1 e N P Q i)) = Some wynik"
    and before: "\<forall>j<i. fst (attack_check (P ! j) (Q ! j) e N (attack_p1 e N P Q j)) = None"
  shows "attack_loop e N (take (Suc i) w @ w') 0 ([], []) 0 = Some wynik"
proof -
  obtain P' Q' where part: "buildConvergents (take (Suc i) w @ w') = (P', Q')"
    by (cases "buildConvergents (take (Suc i) w @ w')")
  have iw: "i < length w"
    using i buildConvergents_index [OF built] by simp
  have same: "\<forall>j<Suc i. P' ! j = P ! j \<and> Q' ! j = Q ! j"
    using buildConvergents_prefix [OF built part] iw by simp
  have p1: "attack_p1 e N P' Q' m = attack_p1 e N P Q m" if "m \<le> Suc i" for m
    using same that by (rule attack_p1_prefix)
  have test: "fst (attack_check (P' ! j) (Q' ! j) e N (attack_p1 e N P' Q' j)) =
      fst (attack_check (P ! j) (Q ! j) e N (attack_p1 e N P Q j))" if "j \<le> i" for j
    using same p1 [of j] that by simp
  have "i < length P'"
    using buildConvergents_index [OF part] iw by simp
  moreover have "fst (attack_check (P' ! i) (Q' ! i) e N (attack_p1 e N P' Q' i)) = Some wynik"
    using test [of i] found by simp
  moreover have "\<forall>j<i. fst (attack_check (P' ! j) (Q' ! j) e N (attack_p1 e N P' Q' j)) = None"
    using test before by simp
  ultimately show ?thesis
    unfolding attack_loop_first_match [OF part] by blast
qed

text \<open>
  Claim C5. \<^verbatim>\<open>wienerAttack\<close> tests the convergents in increasing index order and returns
  the pair of the first index at which \<^verbatim>\<open>tryRecoverFromConvergent\<close> succeeds: it returns
  \<open>r\<close> exactly when some index \<open>i\<close> yields \<open>r\<close> and every index below \<open>i\<close> yields nothing.
  No later convergent is examined: the scan returns the same \<open>r\<close> whatever stands in \<open>P\<close>
  and \<open>Q\<close> beyond index \<open>i\<close>. The loop of \<^verbatim>\<open>attack\<close> in wiener.cpp does the same with its own
  test of a convergent (on the \<open>p1\<close> that the iterations before have left): it returns the
  vector of the first index whose test returns one, whatever terms follow the first
  \<open>i + 1\<close> terms of the expansion.
\<close>

theorem first_convergent_wins:
  assumes "buildConvergents (computeContinuedFraction e N) = (P, Q)"
  shows "(wienerAttack e N = Some r \<longleftrightarrow>
      (\<exists>i. i < length P \<and> tryRecoverFromConvergent (P ! i) (Q ! i) e N = Some r \<and>
           (\<forall>j<i. tryRecoverFromConvergent (P ! j) (Q ! j) e N = None))) \<and>
    (\<forall>i P' Q'. i < length P \<and> tryRecoverFromConvergent (P ! i) (Q ! i) e N = Some r \<and>
           (\<forall>j<i. tryRecoverFromConvergent (P ! j) (Q ! j) e N = None) \<longrightarrow>
        wa_loop (take (Suc i) P @ P') (take (Suc i) Q @ Q') e N 0 = Some r) \<and>
    (attack_loop e N (oblicz_wartosc_ulamka_lancuchowego e N) 0 ([], []) 0 = Some wynik \<longleftrightarrow>
      (\<exists>i. i < length P \<and>
           fst (attack_check (P ! i) (Q ! i) e N (attack_p1 e N P Q i)) = Some wynik \<and>
           (\<forall>j<i. fst (attack_check (P ! j) (Q ! j) e N (attack_p1 e N P Q j)) = None))) \<and>
    (\<forall>i w'. i < length P \<and>
           fst (attack_check (P ! i) (Q ! i) e N (attack_p1 e N P Q i)) = Some wynik \<and>
           (\<forall>j<i. fst (attack_check (P ! j) (Q ! j) e N (attack_p1 e N P Q j)) = None) \<longrightarrow>
        attack_loop e N (take (Suc i) (oblicz_wartosc_ulamka_lancuchowego e N) @ w') 0 ([], []) 0
          = Some wynik)"
proof -
  have lens: "length Q = length P"
    using buildConvergents_index [OF assms] by simp
  have forward: "\<exists>i. i < length P \<and> tryRecoverFromConvergent (P ! i) (Q ! i) e N = Some r \<and>
           (\<forall>j<i. tryRecoverFromConvergent (P ! j) (Q ! j) e N = None)"
    if "wienerAttack e N = Some r"
    using wa_loop_SomeD [of P Q e N 0 r] that wienerAttack_is_loop [OF assms] by simp
  have backward: "wienerAttack e N = Some r"
    if "\<exists>i. i < length P \<and> tryRecoverFromConvergent (P ! i) (Q ! i) e N = Some r \<and>
           (\<forall>j<i. tryRecoverFromConvergent (P ! j) (Q ! j) e N = None)"
  proof -
    from that obtain i where i: "i < length P"
        "tryRecoverFromConvergent (P ! i) (Q ! i) e N = Some r"
        "\<forall>j<i. tryRecoverFromConvergent (P ! j) (Q ! j) e N = None"
      by blast
    have "wa_loop P Q e N 0 = Some r"
      using i by (intro wa_loop_SomeI [where i = i]) simp_all
    then show ?thesis using wienerAttack_is_loop [OF assms] by simp
  qed
  have scan: "wienerAttack e N = Some r \<longleftrightarrow>
      (\<exists>i. i < length P \<and> tryRecoverFromConvergent (P ! i) (Q ! i) e N = Some r \<and>
           (\<forall>j<i. tryRecoverFromConvergent (P ! j) (Q ! j) e N = None))"
    using forward backward by blast
  have scan_prefix: "\<forall>i P' Q'. i < length P \<and>
        tryRecoverFromConvergent (P ! i) (Q ! i) e N = Some r \<and>
        (\<forall>j<i. tryRecoverFromConvergent (P ! j) (Q ! j) e N = None) \<longrightarrow>
        wa_loop (take (Suc i) P @ P') (take (Suc i) Q @ Q') e N 0 = Some r"
    using wa_loop_prefix lens by simp
  have loop: "attack_loop e N (oblicz_wartosc_ulamka_lancuchowego e N) 0 ([], []) 0 = Some wynik
      \<longleftrightarrow> (\<exists>i. i < length P \<and>
           fst (attack_check (P ! i) (Q ! i) e N (attack_p1 e N P Q i)) = Some wynik \<and>
           (\<forall>j<i. fst (attack_check (P ! j) (Q ! j) e N (attack_p1 e N P Q j)) = None))"
    unfolding oblicz_eq_computeContinuedFraction by (rule attack_loop_first_match [OF assms])
  have loop_prefix: "\<forall>i w'. i < length P \<and>
        fst (attack_check (P ! i) (Q ! i) e N (attack_p1 e N P Q i)) = Some wynik \<and>
        (\<forall>j<i. fst (attack_check (P ! j) (Q ! j) e N (attack_p1 e N P Q j)) = None) \<longrightarrow>
        attack_loop e N (take (Suc i) (oblicz_wartosc_ulamka_lancuchowego e N) @ w') 0 ([], []) 0
          = Some wynik"
    unfolding oblicz_eq_computeContinuedFraction
    using attack_loop_prefix [OF assms] by blast
  show ?thesis
    using scan scan_prefix loop loop_prefix by (intro conjI)
qed

lemma attack_check_17993_90581:
  "fst (attack_check 0 1 17993 90581 0) = None"
  "snd (attack_check 0 1 17993 90581 0) = 0"
  "fst (attack_check 1 5 17993 90581 0) = Some [239, 5]"
  by (simp_all add: attack_check_def Let_def ntl_eval)

theorem first_convergent_wins_witness:
  "buildConvergents (computeContinuedFraction 17993 90581) =
     ([0, 1, 29, 117, 146, 555, 1256, 5579, 17993],
      [1, 5, 146, 589, 735, 2794, 6323, 28086, 90581]) \<and>
   wienerAttack 17993 90581 = Some (379, 5) \<and>
   wa_loop (take (Suc 1) [0, 1, 29, 117, 146, 555, 1256, 5579, 17993] @ [7, 7])
           (take (Suc 1) [1, 5, 146, 589, 735, 2794, 6323, 28086, 90581] @ [11, 11])
           17993 90581 0 = Some (379, 5) \<and>
   attack_loop 17993 90581 (oblicz_wartosc_ulamka_lancuchowego 17993 90581) 0 ([], []) 0
     = Some [239, 5] \<and>
   attack_loop 17993 90581 (take (Suc 1) (oblicz_wartosc_ulamka_lancuchowego 17993 90581) @ [7, 7])
     0 ([], []) 0 = Some [239, 5]"
proof -
  let ?P = "[0, 1, 29, 117, 146, 555, 1256, 5579, 17993 :: int]"
  let ?Q = "[1, 5, 146, 589, 735, 2794, 6323, 28086, 90581 :: int]"
  have built: "buildConvergents (computeContinuedFraction 17993 90581) = (?P, ?Q)"
    by (simp only: cf_17993_90581 convergents_17993_90581)
  note first = first_convergent_wins [OF built, of "(379, 5)" "[239, 5]"]
  have second: "1 < length ?P \<and>
      tryRecoverFromConvergent (?P ! 1) (?Q ! 1) 17993 90581 = Some (379, 5) \<and>
      (\<forall>j<1. tryRecoverFromConvergent (?P ! j) (?Q ! j) 17993 90581 = None)"
    by (simp add: tryRecover_17993_90581)
  have p1: "attack_p1 17993 90581 ?P ?Q 1 = 0"
    by (simp add: attack_check_17993_90581)
  have second': "1 < length ?P \<and>
      fst (attack_check (?P ! 1) (?Q ! 1) 17993 90581 (attack_p1 17993 90581 ?P ?Q 1))
        = Some [239, 5] \<and>
      (\<forall>j<1. fst (attack_check (?P ! j) (?Q ! j) 17993 90581 (attack_p1 17993 90581 ?P ?Q j))
        = None)"
    unfolding p1 by (simp add: attack_check_17993_90581)
  have found: "wienerAttack 17993 90581 = Some (379, 5)"
    using first [THEN conjunct1] second by blast
  have scan: "wa_loop (take (Suc 1) ?P @ [7, 7]) (take (Suc 1) ?Q @ [11, 11]) 17993 90581 0
      = Some (379, 5)"
    using first [THEN conjunct2, THEN conjunct1, rule_format, OF second] .
  have found': "attack_loop 17993 90581 (oblicz_wartosc_ulamka_lancuchowego 17993 90581) 0
      ([], []) 0 = Some [239, 5]"
    using first [THEN conjunct2, THEN conjunct2, THEN conjunct1] second' by blast
  have scan': "attack_loop 17993 90581
      (take (Suc 1) (oblicz_wartosc_ulamka_lancuchowego 17993 90581) @ [7, 7]) 0 ([], []) 0
      = Some [239, 5]"
    using first [THEN conjunct2, THEN conjunct2, THEN conjunct2, rule_format, OF second'] .
  show ?thesis
    using built found scan found' scan' by (intro conjI)
qed

end
